theory Spec2Isabelle
  imports Complex_Main "HOL-Library.Log_Nat"
begin

section \<open>Python numbers\<close>

text \<open>
  The sources compute new image dimensions and progress percentages with Python's
  \<^verbatim>\<open>float\<close>, an IEEE 754 binary64 number: \<^verbatim>\<open>a / b\<close> on two ints is the
  correctly rounded quotient, \<^verbatim>\<open>w * scale\<close> converts the int and rounds the product,
  and \<^verbatim>\<open>int(x)\<close> truncates towards zero. A finite float is a rational number, so the model
  computes on \<open>rat\<close> and rounds explicitly: \<open>fl x\<close> is \<open>x\<close> rounded to the nearest number
  with a 53-bit significand, ties to the even significand. Overflow and subnormal numbers
  are not modelled: every float the modelled code forms from image dimensions below
  \<open>2 ^ 31\<close> lies between \<open>2 ^ - 31\<close> and \<open>2 ^ 62\<close>.
\<close>

definition round_half_even :: "rat \<Rightarrow> int" where
  "round_half_even q =
     (let f = \<lfloor>q\<rfloor>; r = q - of_int f
      in if r < 1 / 2 then f else if 1 / 2 < r then f + 1
         else if even f then f else f + 1)"

definition binade :: "rat \<Rightarrow> int" where
  \<comment> \<open>for \<open>0 < x\<close>, the exponent \<open>e\<close> with \<open>2 powi e \<le> x < 2 powi (e + 1)\<close>\<close>
  "binade x =
     (if 1 \<le> x then int (floorlog 2 (nat \<lfloor>x\<rfloor>)) - 1
      else - int (floorlog 2 (nat (\<lceil>1 / x\<rceil> - 1))))"

definition fl :: "rat \<Rightarrow> rat" where
  "fl x =
     (if x = 0 then 0
      else let a = \<bar>x\<bar>; e = binade a; m = round_half_even (a * 2 powi (52 - e))
           in sgn x * of_int m * 2 powi (e - 52))"

definition truediv :: "int \<Rightarrow> int \<Rightarrow> rat" where
  \<comment> \<open>\<^verbatim>\<open>a / b\<close> on ints; every divisor in the modelled code is positive\<close>
  "truediv a b = fl (of_int a / of_int b)"

definition int_times_float :: "int \<Rightarrow> rat \<Rightarrow> rat" where
  \<comment> \<open>\<^verbatim>\<open>w * scale\<close> with an int \<open>w\<close> and a float \<open>scale\<close>\<close>
  "int_times_float w s = fl (fl (of_int w) * s)"

definition py_int :: "rat \<Rightarrow> int" where
  "py_int x = (if 0 \<le> x then \<lfloor>x\<rfloor> else \<lceil>x\<rceil>)"

section \<open>Python strings and \<^verbatim>\<open>os.path\<close>\<close>

text \<open>
  Strings are byte lists (UTF-8); the arrow of the log lines is three bytes. The
  \<^verbatim>\<open>os.path\<close> functions are the POSIX ones.
\<close>

definition arrow :: string where
  "arrow = [CHR 0xE2, CHR 0x86, CHR 0x92]"

definition lower_char :: "char \<Rightarrow> char" where
  "lower_char c = (let n = (of_char c :: nat) in if 65 \<le> n \<and> n \<le> 90 then char_of (n + 32) else c)"

definition py_lower :: "string \<Rightarrow> string" where
  "py_lower s = map lower_char s"

definition endswith :: "string \<Rightarrow> string \<Rightarrow> bool" where
  "endswith s suf = (length suf \<le> length s \<and> drop (length s - length suf) s = suf)"

definition is_sep :: "char \<Rightarrow> bool" where
  "is_sep c = (c = CHR ''/'')"

definition rstrip_seps :: "string \<Rightarrow> string" where
  \<comment> \<open>\<^verbatim>\<open>s.rstrip("/\\")\<close>\<close>
  "rstrip_seps s = rev (dropWhile (\<lambda>c. c = CHR ''/'' \<or> c = CHR 0x5C) (rev s))"

definition basename :: "string \<Rightarrow> string" where
  "basename p = rev (takeWhile (\<lambda>c. \<not> is_sep c) (rev p))"

definition dirname :: "string \<Rightarrow> string" where
  "dirname p =
     (let head = rev (dropWhile (\<lambda>c. \<not> is_sep c) (rev p))
      in if head \<noteq> [] \<and> \<not> list_all is_sep head then rev (dropWhile is_sep (rev head)) else head)"

definition path_join :: "string \<Rightarrow> string \<Rightarrow> string" where
  "path_join a b =
     (if b \<noteq> [] \<and> is_sep (hd b) then b
      else if a = [] \<or> is_sep (last a) then a @ b
      else a @ ''/'' @ b)"

definition splitext_root :: "string \<Rightarrow> string" where
  \<comment> \<open>\<^verbatim>\<open>os.path.splitext(p)[0]\<close> for a name \<open>p\<close> without directory separator: the
      extension starts at the last dot, unless only dots precede it\<close>
  "splitext_root p =
     (case dropWhile (\<lambda>c. c \<noteq> CHR ''.'') (rev p) of
        [] \<Rightarrow> p
      | _ # stem_rev \<Rightarrow> if list_all (\<lambda>c. c = CHR ''.'') stem_rev then p else rev stem_rev)"

fun join_lines :: "string list \<Rightarrow> string" where
  "join_lines [] = []"
| "join_lines [x] = x"
| "join_lines (x # y # ys) = x @ [CHR 0x0A] @ join_lines (y # ys)"

section \<open>Images, the imaging library and the file system\<close>

text \<open>
  Pillow and the operating system are outside the repository. Their deterministic
  behaviour is written out (\<^verbatim>\<open>convert\<close> sets the mode, \<^verbatim>\<open>resize\<close> sets the size and
  rejects a size below one pixel, \<^verbatim>\<open>save\<close> writes the file, \<^verbatim>\<open>shutil.move\<close> and
  \<^verbatim>\<open>os.remove\<close> change the directory); what they compute from the pixel data, whether
  a call raises, and what a call that raises leaves behind, is given by the functions of a
  \<open>sys\<close> record, which every modelled
  function takes as its first argument. An exception is the text \<^verbatim>\<open>str(e)\<close>.
  The \<open>world\<close> holds the files and the trace of the library calls made so far.
\<close>

type_synonym bytes = "nat list"

datatype kwarg = KBool bool | KInt int

type_synonym kwargs = "(string \<times> kwarg) list"

record image =
  width :: int
  height :: int
  mode :: string
  pixels :: "nat list"

datatype leftover = Untouched | Removed | Partial bytes

datatype save_result = Written bytes | SaveRaised string leftover

datatype copied = NotCopied | PartlyCopied bytes | FullyCopied

record 'p sys =
  enoent :: "'p \<Rightarrow> string"
  decode :: "bytes \<Rightarrow> string + image"
  recolor :: "image \<Rightarrow> string \<Rightarrow> string + nat list"
  resample :: "image \<Rightarrow> int \<times> int \<Rightarrow> string + nat list"
  encode :: "image \<Rightarrow> string \<Rightarrow> kwargs \<Rightarrow> save_result"
  move_fault :: "'p \<Rightarrow> 'p \<Rightarrow> (string \<times> copied) option"
  remove_fault :: "'p \<Rightarrow> string option"

record 'p world =
  files :: "'p \<rightharpoonup> bytes"
  opened :: "'p list"
  saves :: "('p \<times> image \<times> string \<times> kwargs) list"
  printed :: "string list"

definition path_exists :: "'p world \<Rightarrow> 'p \<Rightarrow> bool" where
  "path_exists w p = (files w p \<noteq> None)"

definition image_open :: "'p sys \<Rightarrow> 'p \<Rightarrow> 'p world \<Rightarrow> (string + image) \<times> 'p world" where
  \<comment> \<open>\<^verbatim>\<open>Image.open(path)\<close> and the decoding of the pixel data\<close>
  "image_open S p w =
     ((case files w p of None \<Rightarrow> Inl (enoent S p) | Some b \<Rightarrow> decode S b),
      w\<lparr>opened := opened w @ [p]\<rparr>)"

definition convert :: "'p sys \<Rightarrow> image \<Rightarrow> string \<Rightarrow> string + image" where
  \<comment> \<open>\<^verbatim>\<open>im.convert(mode)\<close>\<close>
  "convert S im m =
     (case recolor S im m of Inl e \<Rightarrow> Inl e | Inr px \<Rightarrow> Inr (im\<lparr>mode := m, pixels := px\<rparr>))"

definition resize :: "'p sys \<Rightarrow> image \<Rightarrow> int \<times> int \<Rightarrow> string + image" where
  \<comment> \<open>\<^verbatim>\<open>im.resize(size, Image.LANCZOS)\<close>\<close>
  "resize S im sz =
     (if fst sz < 1 \<or> snd sz < 1 then Inl ''height and width must be > 0''
      else case resample S im sz of
             Inl e \<Rightarrow> Inl e
           | Inr px \<Rightarrow> Inr (im\<lparr>width := fst sz, height := snd sz, pixels := px\<rparr>))"

definition image_save ::
  "'p sys \<Rightarrow> image \<Rightarrow> 'p \<Rightarrow> string \<Rightarrow> kwargs \<Rightarrow> 'p world \<Rightarrow> string option \<times> 'p world" where
  \<comment> \<open>\<^verbatim>\<open>im.save(path, fmt, **kwargs)\<close>; a call that raises may leave a partial file\<close>
  "image_save S im p fmt kw w =
     (let w1 = w\<lparr>saves := saves w @ [(p, im, fmt, kw)]\<rparr>
      in case encode S im fmt kw of
           Written b \<Rightarrow> (None, w1\<lparr>files := (files w1)(p \<mapsto> b)\<rparr>)
         | SaveRaised e left \<Rightarrow>
             (Some e,
              case left of
                Untouched \<Rightarrow> w1
              | Removed \<Rightarrow> w1\<lparr>files := (files w1)(p := None)\<rparr>
              | Partial b \<Rightarrow> w1\<lparr>files := (files w1)(p \<mapsto> b)\<rparr>))"

definition move :: "'p sys \<Rightarrow> 'p \<Rightarrow> 'p \<Rightarrow> 'p world \<Rightarrow> string option \<times> 'p world" where
  \<comment> \<open>\<^verbatim>\<open>shutil.move(src, dst)\<close> of a file: \<^verbatim>\<open>os.rename\<close>, and when that fails a copy
      followed by \<^verbatim>\<open>os.unlink(src)\<close>. A move that raises leaves the source in place; the
      destination is untouched, holds a part of a copy, or holds the whole copy (when the
      unlink is what failed)\<close>
  "move S src dst w =
     (case files w src of
        None \<Rightarrow> (Some (enoent S src), w)
      | Some b \<Rightarrow>
          (case move_fault S src dst of
             Some (e, left) \<Rightarrow>
               (Some e,
                case left of
                  NotCopied \<Rightarrow> w
                | PartlyCopied part \<Rightarrow> w\<lparr>files := (files w)(dst \<mapsto> part)\<rparr>
                | FullyCopied \<Rightarrow> w\<lparr>files := (files w)(dst \<mapsto> b)\<rparr>)
           | None \<Rightarrow> (None, w\<lparr>files := (files w)(src := None, dst \<mapsto> b)\<rparr>)))"

definition remove :: "'p sys \<Rightarrow> 'p \<Rightarrow> 'p world \<Rightarrow> string option \<times> 'p world" where
  \<comment> \<open>\<^verbatim>\<open>os.remove(path)\<close>\<close>
  "remove S p w =
     (case files w p of
        None \<Rightarrow> (Some (enoent S p), w)
      | Some b \<Rightarrow>
          (case remove_fault S p of
             Some e \<Rightarrow> (Some e, w)
           | None \<Rightarrow> (None, w\<lparr>files := (files w)(p := None)\<rparr>)))"

section \<open>\<^verbatim>\<open>delta_pix.py\<close>: the export path\<close>

record export_settings =
  formats :: "string list"
  resize_percent :: int
  png_optimize :: bool
  jpg_quality :: int
  webp_lossless :: bool
  webp_quality :: int
  drop_alpha :: bool
  max_width :: int
  max_height :: int

definition load_image :: "string sys \<Rightarrow> string \<Rightarrow> string world \<Rightarrow> image option \<times> string world" where
  "load_image S path w =
     (case image_open S path w of
        (Inr im, w1) \<Rightarrow> (Some im, w1)
      | (Inl e, w1) \<Rightarrow> (None, w1\<lparr>printed := printed w1 @ [''load_image error: '' @ e]\<rparr>))"

definition percent_size :: "int \<Rightarrow> int \<times> int \<Rightarrow> int \<times> int" where
  \<comment> \<open>\<^verbatim>\<open>max(1, int(w * pct / 100))\<close> on each axis\<close>
  "percent_size pct sz =
     (max 1 (py_int (truediv (fst sz * pct) 100)), max 1 (py_int (truediv (snd sz * pct) 100)))"

definition clamp_scale :: "int \<Rightarrow> int \<Rightarrow> int \<times> int \<Rightarrow> rat" where
  "clamp_scale max_w max_h sz =
     (let scale = 1;
          scale = (if max_w > 0 \<and> fst sz > max_w then min scale (truediv max_w (fst sz)) else scale);
          scale = (if max_h > 0 \<and> snd sz > max_h then min scale (truediv max_h (snd sz)) else scale)
      in scale)"

definition scale_size :: "rat \<Rightarrow> int \<times> int \<Rightarrow> int \<times> int" where
  \<comment> \<open>\<^verbatim>\<open>int(w * scale)\<close> on each axis\<close>
  "scale_size scale sz =
     (py_int (int_times_float (fst sz) scale), py_int (int_times_float (snd sz) scale))"

definition shrink_factor :: "int \<Rightarrow> int \<Rightarrow> int \<times> int \<Rightarrow> rat" where
  \<comment> \<open>the uniform shrink factor in the words of the specification, in exact arithmetic:
      the least of 1, of \<open>max_w / width\<close> if \<open>max_w > 0\<close> and of \<open>max_h / height\<close> if
      \<open>max_h > 0\<close>. It is compared below with what \<open>clamp_scale\<close> and \<open>scale_size\<close>
      compute in floating point\<close>
  "shrink_factor max_w max_h sz =
     min 1 (min (if max_w > 0 then of_int max_w / of_int (fst sz) else 1)
                (if max_h > 0 then of_int max_h / of_int (snd sz) else 1))"

definition apply_resize :: "'p sys \<Rightarrow> image \<Rightarrow> int \<Rightarrow> int \<Rightarrow> int \<Rightarrow> string + image" where
  "apply_resize S img pct max_w max_h =
     (case (if pct \<noteq> 100 then resize S img (percent_size pct (width img, height img))
            else Inr img) of
        Inl e \<Rightarrow> Inl e
      | Inr img1 \<Rightarrow>
          if max_w > 0 \<or> max_h > 0 then
            let scale = clamp_scale max_w max_h (width img1, height img1)
            in if scale < 1 then resize S img1 (scale_size scale (width img1, height img1))
               else Inr img1
          else Inr img1)"

definition save_kwargs :: "string \<Rightarrow> export_settings \<Rightarrow> kwargs" where
  "save_kwargs fmt cfg =
     (if fmt = ''PNG'' then [(''optimize'', KBool (png_optimize cfg))]
      else if fmt = ''JPEG'' then [(''quality'', KInt (jpg_quality cfg))]
      else if fmt = ''WEBP'' then
        (if webp_lossless cfg then [(''lossless'', KBool True), (''method'', KInt 6)]
         else [(''quality'', KInt (webp_quality cfg)), (''method'', KInt 6)])
      else [])"

definition save_one_body ::
  "'p sys \<Rightarrow> image \<Rightarrow> 'p \<Rightarrow> string \<Rightarrow> export_settings \<Rightarrow> 'p world \<Rightarrow> string option \<times> 'p world" where
  \<comment> \<open>the \<^verbatim>\<open>try\<close> block of \<^verbatim>\<open>_save_one\<close>; \<open>Some e\<close> is the exception that leaves it\<close>
  "save_one_body S img out_path fmt cfg w =
     (case (if drop_alpha cfg \<or> fmt = ''JPEG'' then convert S img ''RGB'' else Inr img) of
        Inl e \<Rightarrow> (Some e, w)
      | Inr im \<Rightarrow>
          (case apply_resize S im (resize_percent cfg) (max_width cfg) (max_height cfg) of
             Inl e \<Rightarrow> (Some e, w)
           | Inr im2 \<Rightarrow> image_save S im2 out_path fmt (save_kwargs fmt cfg) w))"

definition save_one ::
  "'p sys \<Rightarrow> image \<Rightarrow> 'p \<Rightarrow> string \<Rightarrow> export_settings \<Rightarrow> 'p world \<Rightarrow> (bool \<times> string) \<times> 'p world" where
  \<comment> \<open>\<^verbatim>\<open>_save_one\<close>: \<^verbatim>\<open>return True, "ok"\<close>, or \<^verbatim>\<open>except Exception as e: return False, str(e)\<close>\<close>
  "save_one S img out_path fmt cfg w =
     (case save_one_body S img out_path fmt cfg w of
        (None, w1) \<Rightarrow> ((True, ''ok''), w1)
      | (Some e, w1) \<Rightarrow> ((False, e), w1))"

definition format_ext :: "string \<Rightarrow> string" where
  "format_ext fmt = (if fmt = ''PNG'' then ''.png'' else if fmt = ''JPEG'' then ''.jpg'' else ''.webp'')"

fun export_formats ::
  "string sys \<Rightarrow> string \<Rightarrow> export_settings \<Rightarrow> string \<Rightarrow> image \<Rightarrow> string list \<Rightarrow>
   string list \<times> string world \<Rightarrow> string list \<times> string world" where
  \<comment> \<open>the inner loop of \<^verbatim>\<open>_export_batch\<close>, over \<^verbatim>\<open>cfg.formats\<close>\<close>
  "export_formats S out_dir cfg path img [] (errors, w) = (errors, w)"
| "export_formats S out_dir cfg path img (fmt # fmts) (errors, w) =
     (let out_path = path_join out_dir (splitext_root (basename path) @ format_ext fmt)
      in case save_one S img out_path fmt cfg w of
           ((True, msg), w1) \<Rightarrow> export_formats S out_dir cfg path img fmts (errors, w1)
         | ((False, msg), w1) \<Rightarrow>
             export_formats S out_dir cfg path img fmts
               (errors @ [basename path @ '' '' @ arrow @ '' '' @ fmt @ '': '' @ msg], w1))"

fun export_sources ::
  "string sys \<Rightarrow> string \<Rightarrow> export_settings \<Rightarrow> string list \<Rightarrow>
   string list \<times> string world \<Rightarrow> string list \<times> string world" where
  \<comment> \<open>the outer loop of \<^verbatim>\<open>_export_batch\<close>, over \<^verbatim>\<open>self.images\<close>\<close>
  "export_sources S out_dir cfg [] (errors, w) = (errors, w)"
| "export_sources S out_dir cfg (path # paths) (errors, w) =
     (case load_image S path w of
        (None, w1) \<Rightarrow> export_sources S out_dir cfg paths (errors @ [''Open failed: '' @ path], w1)
      | (Some img, w1) \<Rightarrow>
          export_sources S out_dir cfg paths
            (export_formats S out_dir cfg path img (formats cfg) (errors, w1)))"

datatype message_box = Warning string string | Information string string

definition export_batch ::
  "string sys \<Rightarrow> string list \<Rightarrow> string \<Rightarrow> export_settings \<Rightarrow> string world \<Rightarrow>
   message_box \<times> string world" where
  "export_batch S images out_dir cfg w =
     (case export_sources S out_dir cfg images ([], w) of
        (errors, w1) \<Rightarrow>
          (if errors \<noteq> [] then Warning ''Export Done (with errors)'' (join_lines (take 20 errors))
           else Information ''Export'' ''Batch export completed.'',
           w1))"

section \<open>The two folder converters\<close>

text \<open>
  Both tools work on a folder and on its sibling backup folder \<^verbatim>\<open><folder>_PNG\<close>. A path
  is a file name in one of the two: \<^verbatim>\<open>os.path.join(folder, f)\<close> is \<open>InFolder f\<close> and
  \<^verbatim>\<open>os.path.join(backup_folder, f)\<close> is \<open>InBackup f\<close>.
\<close>

datatype path = InFolder string | InBackup string

definition is_png :: "string \<Rightarrow> bool" where
  \<comment> \<open>\<^verbatim>\<open>f.lower().endswith(".png")\<close>\<close>
  "is_png f = endswith (py_lower f) ''.png''"

subsection \<open>\<^verbatim>\<open>convert_png_to_jpg.py\<close>\<close>

definition resize_and_convert ::
  "'p sys \<Rightarrow> 'p \<Rightarrow> 'p \<Rightarrow> int \<times> int \<Rightarrow> int \<Rightarrow> 'p world \<Rightarrow> string option \<times> 'p world" where
  \<comment> \<open>\<open>Some e\<close> is the exception that the function lets through\<close>
  "resize_and_convert S input_path output_path new_size quality w =
     (case image_open S input_path w of
        (Inl e, w1) \<Rightarrow> (Some e, w1)
      | (Inr img, w1) \<Rightarrow>
          (case convert S img ''RGB'' of
             Inl e \<Rightarrow> (Some e, w1)
           | Inr img1 \<Rightarrow>
               (case resize S img1 new_size of
                  Inl e \<Rightarrow> (Some e, w1)
                | Inr img2 \<Rightarrow>
                    image_save S img2 output_path ''JPEG'' [(''quality'', KInt quality)] w1)))"

definition main_file :: "path sys \<Rightarrow> string \<Rightarrow> int \<times> path world \<Rightarrow> int \<times> path world" where
  \<comment> \<open>the body of the loop of \<^verbatim>\<open>main\<close>, with the default \<^verbatim>\<open>size\<close> and \<^verbatim>\<open>quality\<close>
      of \<^verbatim>\<open>resize_and_convert\<close>\<close>
  "main_file S filename cw =
     (case cw of (count, w) \<Rightarrow>
        if is_png filename then
          let input_path = InFolder filename;
              backup_path = InBackup filename;
              output_filename = splitext_root filename @ ''.jpg'';
              output_path = InFolder output_filename
          in case move S input_path backup_path w of
               (Some e, w1) \<Rightarrow>
                 (count, w1\<lparr>printed := printed w1 @ [''Failed to convert '' @ filename @ '': '' @ e]\<rparr>)
             | (None, w1) \<Rightarrow>
                 (case resize_and_convert S backup_path output_path (1024, 1024) 90 w1 of
                    (Some e, w2) \<Rightarrow>
                      (count,
                       w2\<lparr>printed := printed w2 @ [''Failed to convert '' @ filename @ '': '' @ e]\<rparr>)
                  | (None, w2) \<Rightarrow>
                      (count + 1,
                       w2\<lparr>printed := printed w2 @
                            [''Converted: '' @ filename @ '' '' @ arrow @ '' '' @ output_filename]\<rparr>))
        else (count, w))"

definition main_files :: "path sys \<Rightarrow> string list \<Rightarrow> path world \<Rightarrow> int \<times> path world" where
  \<comment> \<open>the loop of \<^verbatim>\<open>main\<close> over \<^verbatim>\<open>os.listdir(folder)\<close>, from \<^verbatim>\<open>count = 0\<close>\<close>
  "main_files S names w = foldl (\<lambda>cw filename. main_file S filename cw) (0, w) names"

subsection \<open>\<^verbatim>\<open>pyqt_convert_png_to_webp.py\<close>\<close>

record job_config =
  folder :: string
  keep_backup :: bool
  overwrite :: bool
  no_alpha :: bool

datatype event = Progress int | Log string | Done nat | Error string

text \<open>
  What \<^verbatim>\<open>run\<close> asks of the operating system before its loop, and the calls of
  \<^verbatim>\<open>stop\<close> by the other thread: \<open>stop_calls E 0\<close> says that \<^verbatim>\<open>stop\<close> is called before
  the first test of \<^verbatim>\<open>_stopped\<close>, and \<open>stop_calls E i\<close> that it is called between the
  test made for item \<open>i\<close> (counted from one, as \<^verbatim>\<open>enumerate\<close> does) and the next test.
\<close>

record run_env =
  is_dir :: "string \<Rightarrow> bool"
  listdir :: "string + string list"
  makedirs_fault :: "string option"
  stop_calls :: "nat \<Rightarrow> bool"

record loop_state =
  st_world :: "path world"
  converted :: nat
  stopped :: bool

definition convert_one ::
  "'p sys \<Rightarrow> job_config \<Rightarrow> 'p \<Rightarrow> 'p \<Rightarrow> 'p world \<Rightarrow> string option \<times> 'p world" where
  \<comment> \<open>\<^verbatim>\<open>_convert_one\<close>; \<open>Some e\<close> is the exception that the method lets through\<close>
  "convert_one S cfg src_png dst_webp w =
     (case image_open S src_png w of
        (Inl e, w1) \<Rightarrow> (Some e, w1)
      | (Inr im, w1) \<Rightarrow>
          if no_alpha cfg then
            (case convert S im ''RGB'' of
               Inl e \<Rightarrow> (Some e, w1)
             | Inr im1 \<Rightarrow>
                 image_save S im1 dst_webp ''WEBP'' [(''quality'', KInt 90), (''method'', KInt 6)] w1)
          else
            (let m = (if mode im = ''RGBA'' \<or> mode im = ''LA'' then ''RGBA'' else ''RGB'')
             in case convert S im m of
                  Inl e \<Rightarrow> (Some e, w1)
                | Inr im1 \<Rightarrow>
                    image_save S im1 dst_webp ''WEBP''
                      [(''lossless'', KBool True), (''method'', KInt 6)] w1))"

definition progress_percent :: "nat \<Rightarrow> nat \<Rightarrow> int" where
  \<comment> \<open>\<^verbatim>\<open>int(i * 100 / total)\<close>\<close>
  "progress_percent i tot = py_int (truediv (int i * 100) (int tot))"

definition convert_item ::
  "path sys \<Rightarrow> job_config \<Rightarrow> string \<Rightarrow> path world \<Rightarrow> nat \<Rightarrow> event list \<times> path world \<times> nat" where
  \<comment> \<open>the inner \<^verbatim>\<open>try\<close> statement of \<^verbatim>\<open>run\<close>, with its handler\<close>
  "convert_item S cfg fname w count =
     (let src = InFolder fname;
          dst_name = splitext_root fname @ ''.webp'';
          dst = InFolder dst_name;
          bak = InBackup fname;
          moved = (if keep_backup cfg \<and> \<not> path_exists w bak then move S src bak w else (None, w));
          src_for_convert = (if keep_backup cfg then bak else src)
      in (case moved of
            (Some e, w1) \<Rightarrow> ([Log (''Failed: '' @ fname @ '' -> '' @ e)], w1, count)
          | (None, w1) \<Rightarrow>
              (case convert_one S cfg src_for_convert dst w1 of
                 (Some e, w2) \<Rightarrow> ([Log (''Failed: '' @ fname @ '' -> '' @ e)], w2, count)
               | (None, w2) \<Rightarrow>
                   (let ev = [Log (''Converted: '' @ fname @ '' '' @ arrow @ '' '' @ dst_name)]
                    in if \<not> keep_backup cfg \<and> path_exists w2 src then
                         (case remove S src w2 of
                            (Some e_rm, w3) \<Rightarrow>
                              (ev @ [Log (''Warn: failed to delete original '' @ fname @ '': '' @ e_rm)],
                               w3, count + 1)
                          | (None, w3) \<Rightarrow> (ev, w3, count + 1))
                       else (ev, w2, count + 1)))))"

definition process_item ::
  "path sys \<Rightarrow> job_config \<Rightarrow> nat \<Rightarrow> nat \<Rightarrow> string \<Rightarrow> loop_state \<Rightarrow> event list \<times> loop_state" where
  \<comment> \<open>the body of the loop of \<^verbatim>\<open>run\<close> after the test of \<^verbatim>\<open>_stopped\<close>\<close>
  "process_item S cfg tot i fname st =
     (let dst_name = splitext_root fname @ ''.webp'';
          dst = InFolder dst_name
      in if \<not> overwrite cfg \<and> path_exists (st_world st) dst then
           ([Log (''Skip (already exists): '' @ dst_name), Progress (progress_percent i tot)], st)
         else
           (case convert_item S cfg fname (st_world st) (converted st) of
              (ev, w1, count1) \<Rightarrow>
                (ev @ [Progress (progress_percent i tot)],
                 st\<lparr>st_world := w1, converted := count1\<rparr>)))"

fun run_loop ::
  "path sys \<Rightarrow> (nat \<Rightarrow> bool) \<Rightarrow> job_config \<Rightarrow> nat \<Rightarrow> nat \<Rightarrow> string list \<Rightarrow> loop_state \<Rightarrow>
   event list \<times> loop_state" where
  \<comment> \<open>the loop of \<^verbatim>\<open>run\<close> from item \<open>i\<close> on; \<open>calls i\<close> tells whether \<^verbatim>\<open>stop\<close> is
      called while item \<open>i\<close> is processed\<close>
  "run_loop S calls cfg tot i [] st = ([], st)"
| "run_loop S calls cfg tot i (fname # rest) st =
     (if stopped st then ([Log ''Stopped by user.''], st)
      else case process_item S cfg tot i fname st of
             (ev, st1) \<Rightarrow>
               (case run_loop S calls cfg tot (Suc i) rest (st1\<lparr>stopped := calls i\<rparr>) of
                  (ev2, st2) \<Rightarrow> (ev @ ev2, st2)))"

definition run_items ::
  "path sys \<Rightarrow> run_env \<Rightarrow> job_config \<Rightarrow> string \<Rightarrow> string list \<Rightarrow> path world \<Rightarrow>
   event list \<times> path world" where
  \<comment> \<open>\<^verbatim>\<open>run\<close> from the line \<^verbatim>\<open>mode_text = ...\<close> on, for a non-empty list \<^verbatim>\<open>pngs\<close>\<close>
  "run_items S E cfg backup_folder pngs w =
     (let tot = length pngs;
          mode_text = (if no_alpha cfg then ''LOSSY (no transparency, q=90)''
                       else ''LOSSLESS (preserve transparency)'');
          ev0 = [Log (''Mode: '' @ mode_text)]
      in (case (if keep_backup cfg then makedirs_fault E else None) of
            Some e \<Rightarrow> (ev0 @ [Error e], w)
          | None \<Rightarrow>
              (let ev1 = (if keep_backup cfg then ev0 @ [Log (''Backup folder: '' @ backup_folder)]
                          else ev0)
               in (case run_loop S (stop_calls E) cfg tot 1 pngs
                         \<lparr>st_world = w, converted = 0, stopped = stop_calls E 0\<rparr> of
                     (ev, st) \<Rightarrow> (ev1 @ ev @ [Done (converted st)], st_world st)))))"

definition run :: "path sys \<Rightarrow> run_env \<Rightarrow> job_config \<Rightarrow> path world \<Rightarrow> event list \<times> path world" where
  \<comment> \<open>an exception outside the inner \<^verbatim>\<open>try\<close> is caught by the outer one, which emits
      \<^verbatim>\<open>error\<close>\<close>
  "run S E cfg w =
     (let dir = rstrip_seps (folder cfg)
      in if \<not> is_dir E dir then ([Error (''Folder not found: '' @ dir)], w)
         else
           (let folder_name = basename dir;
                parent_dir = dirname dir;
                backup_folder = path_join parent_dir (folder_name @ ''_PNG'')
            in (case listdir E of
                  Inl e \<Rightarrow> ([Error e], w)
                | Inr names \<Rightarrow>
                    (let pngs = filter is_png names
                     in if length pngs = 0 then
                          ([Log ''No PNG files found in the selected folder.'', Done 0], w)
                        else run_items S E cfg backup_folder pngs w))))"

section \<open>Example environments and inputs\<close>

text \<open>
  A library that decodes every file except the one holding the byte \<open>0\<close>, encodes every
  image except one without pixel data, and never fails to move or delete a file; and a few
  folders, settings and images. The theorems below are evaluated on them.
\<close>

definition sys_picky :: "'p sys" where
  "sys_picky =
     \<lparr>enoent = (\<lambda>p. ''No such file or directory''),
      decode = (\<lambda>b. if b = [0] then Inl ''cannot identify image file''
                     else Inr \<lparr>width = 100, height = 60, mode = ''RGBA'', pixels = b\<rparr>),
      recolor = (\<lambda>im m. Inr (pixels im)),
      resample = (\<lambda>im sz. Inr (pixels im)),
      encode = (\<lambda>im fmt kw. if pixels im = [] then SaveRaised ''encoder error'' Removed
                              else Written (pixels im)),
      move_fault = (\<lambda>src dst. None),
      remove_fault = (\<lambda>p. None)\<rparr>"

definition sys_unlink_fails :: "'p sys" where
  \<comment> \<open>as \<open>sys_picky\<close>, but every move raises after the copy, at the unlink of the source\<close>
  "sys_unlink_fails = sys_picky\<lparr>move_fault := (\<lambda>src dst. Some (''Permission denied'', FullyCopied))\<rparr>"

definition img_100x60 :: image where
  "img_100x60 = \<lparr>width = 100, height = 60, mode = ''RGBA'', pixels = [7]\<rparr>"

definition img_50x30 :: image where
  "img_50x30 = \<lparr>width = 50, height = 30, mode = ''RGBA'', pixels = [7]\<rparr>"

definition img_40x24 :: image where
  "img_40x24 = \<lparr>width = 40, height = 24, mode = ''RGBA'', pixels = [7]\<rparr>"

definition img_blank :: image where
  "img_blank = \<lparr>width = 100, height = 60, mode = ''RGBA'', pixels = []\<rparr>"

definition cfg_png_jpeg :: export_settings where
  "cfg_png_jpeg =
     \<lparr>formats = [''PNG'', ''JPEG''], resize_percent = 50, png_optimize = True, jpg_quality = 90,
      webp_lossless = False, webp_quality = 90, drop_alpha = False, max_width = 40, max_height = 0\<rparr>"

definition two_sources :: "string world" where
  "two_sources =
     \<lparr>files = [''in/bad.png'' \<mapsto> [0], ''in/good.png'' \<mapsto> [5]],
      opened = [], saves = [], printed = []\<rparr>"

definition job_backup :: job_config where
  "job_backup = \<lparr>folder = ''/photos/'', keep_backup = True, overwrite = False, no_alpha = False\<rparr>"


definition folder_of :: "(path \<times> bytes) list \<Rightarrow> path world" where
  "folder_of entries = \<lparr>files = map_of entries, opened = [], saves = [], printed = []\<rparr>"

definition start :: "path world \<Rightarrow> loop_state" where
  "start w = \<lparr>st_world = w, converted = 0, stopped = False\<rparr>"

definition unencodable_source :: "path world" where
  "unencodable_source = folder_of [(InFolder ''a.png'', [])]"

definition one_source :: "path world" where
  "one_source = folder_of [(InFolder ''a.png'', [1])]"

definition unencodable_backup :: "path world" where
  "unencodable_backup = folder_of [(InFolder ''a.png'', [1]), (InBackup ''a.png'', [])]"

definition old_backup :: "path world" where
  "old_backup = folder_of [(InFolder ''a.png'', [1]), (InBackup ''a.png'', [2])]"

definition already_converted :: "path world" where
  "already_converted = folder_of [(InFolder ''a.png'', [1]), (InFolder ''a.webp'', [9])]"



section \<open>Rounding to binary64\<close>

lemma binade_lower:
  assumes "0 < x"
  shows "2 powi binade x \<le> x"
proof (cases "1 \<le> x")
  case True
  define n where "n = nat \<lfloor>x\<rfloor>"
  have n1: "1 \<le> n" using True by (simp add: n_def le_nat_iff)
  then have k1: "1 \<le> floorlog 2 n"
    by (simp add: floorlog_def)
  have "2 ^ (floorlog 2 n - 1) \<le> n"
    using floorlog_bounds[of n 2] n1 by simp
  then have "(of_nat (2 ^ (floorlog 2 n - 1)) :: rat) \<le> of_nat n"
    using of_nat_le_iff by blast
  also have "(of_nat n :: rat) = of_int \<lfloor>x\<rfloor>"
    using True by (simp add: n_def)
  also have "\<dots> \<le> x" by simp
  finally have "(2::rat) ^ (floorlog 2 n - 1) \<le> x" by simp
  moreover have "binade x = int (floorlog 2 n - 1)"
    using True k1 by (simp add: binade_def n_def)
  ultimately show ?thesis by simp
next
  case False
  define m where "m = nat (\<lceil>1 / x\<rceil> - 1)"
  define k where "k = floorlog 2 m"
  have inv: "1 < 1 / x" using False assms by simp
  then have c2: "2 \<le> \<lceil>1 / x\<rceil>" by (simp add: le_ceiling_iff)
  then have c1: "0 \<le> \<lceil>1 / x\<rceil> - 1" by linarith
  have mint: "int m = \<lceil>1 / x\<rceil> - 1" by (simp only: m_def nat_0_le[OF c1])
  have m1: "1 \<le> m" using mint c2 by linarith
  have "m < 2 ^ k" using floorlog_bounds[of m 2] m1 by (simp add: k_def)
  then have "int m + 1 \<le> 2 ^ k"
    by (metis add.commute of_nat_Suc of_nat_numeral of_nat_power of_nat_le_iff Suc_leI)
  then have "\<lceil>1 / x\<rceil> \<le> 2 ^ k" using mint by linarith
  then have "1 / x \<le> of_int (2 ^ k)" by (simp add: ceiling_le_iff)
  then have "1 / x \<le> 2 ^ k" by simp
  then have "1 \<le> 2 ^ k * x" using assms by (simp add: field_simps)
  then have "1 / 2 ^ k \<le> x" by (simp add: field_simps)
  moreover have "binade x = - int k" using False by (simp add: binade_def k_def m_def)
  ultimately show ?thesis by (simp add: power_int_minus field_simps)
qed

lemma binade_upper:
  assumes "0 < x"
  shows "x < 2 powi (binade x + 1)"
proof (cases "1 \<le> x")
  case True
  define n where "n = nat \<lfloor>x\<rfloor>"
  have n1: "1 \<le> n" using True by (simp add: n_def le_nat_iff)
  have "n < 2 ^ floorlog 2 n"
    using floorlog_bounds[of n 2] n1 by simp
  then have "int n + 1 \<le> 2 ^ floorlog 2 n"
    by (metis add.commute of_nat_Suc of_nat_numeral of_nat_power of_nat_le_iff Suc_leI)
  then have "\<lfloor>x\<rfloor> + 1 \<le> 2 ^ floorlog 2 n" using True by (simp add: n_def)
  then have "(of_int (\<lfloor>x\<rfloor> + 1) :: rat) \<le> of_int (2 ^ floorlog 2 n)"
    using of_int_le_iff by blast
  moreover have "x < of_int (\<lfloor>x\<rfloor> + 1)" by linarith
  ultimately have "x < 2 ^ floorlog 2 n" by simp
  moreover have "binade x + 1 = int (floorlog 2 n)"
    using True by (simp add: binade_def n_def)
  ultimately show ?thesis by simp
next
  case False
  define m where "m = nat (\<lceil>1 / x\<rceil> - 1)"
  define k where "k = floorlog 2 m"
  have inv: "1 < 1 / x" using False assms by simp
  then have c2: "2 \<le> \<lceil>1 / x\<rceil>" by (simp add: le_ceiling_iff)
  then have c1: "0 \<le> \<lceil>1 / x\<rceil> - 1" by linarith
  have mint: "int m = \<lceil>1 / x\<rceil> - 1" by (simp only: m_def nat_0_le[OF c1])
  have m1: "1 \<le> m" using mint c2 by linarith
  then have k1: "1 \<le> k" by (simp add: k_def floorlog_def)
  have "2 ^ (k - 1) \<le> m" using floorlog_bounds[of m 2] m1 by (simp add: k_def)
  then have "(of_nat (2 ^ (k - 1)) :: rat) \<le> of_nat m"
    using of_nat_le_iff by blast
  also have "(of_nat m :: rat) = of_int \<lceil>1 / x\<rceil> - 1"
    using arg_cong[OF mint, of rat_of_int] by simp
  also have "\<dots> < 1 / x" by linarith
  finally have "(2::rat) ^ (k - 1) < 1 / x" by simp
  then have "2 ^ (k - 1) * x < 1" using assms by (simp add: field_simps)
  then have "x < 1 / 2 ^ (k - 1)" by (simp add: field_simps)
  moreover have "binade x + 1 = - int (k - 1)" using False k1 by (simp add: binade_def k_def m_def)
  ultimately show ?thesis by (simp add: power_int_minus field_simps)
qed

lemma round_half_even_near: "\<bar>of_int (round_half_even q) - q\<bar> \<le> 1 / 2"
proof -
  have "of_int \<lfloor>q\<rfloor> \<le> q" "q < of_int \<lfloor>q\<rfloor> + 1" by linarith+
  then show ?thesis
    by (auto simp: round_half_even_def Let_def abs_le_iff)
qed

lemma round_half_even_of_int [simp]: "round_half_even (of_int k) = k"
  by (simp add: round_half_even_def)

lemma fl_pos_eq:
  assumes "0 < x"
  shows "fl x = of_int (round_half_even (x * 2 powi (52 - binade x))) * 2 powi (binade x - 52)"
  using assms by (simp add: fl_def Let_def)

lemma powi_cancel: "(2::rat) powi (52 - e) * 2 powi (e - 52) = 1"
proof -
  have "(2::rat) powi (52 - e) * 2 powi (e - 52) = 2 powi ((52 - e) + (e - 52))"
    by (subst power_int_add) simp_all
  then show ?thesis by simp
qed

lemma fl_error:
  assumes "0 < x"
  shows "\<bar>fl x - x\<bar> \<le> x / 2 ^ 53"
proof -
  define e where "e = binade x"
  define q where "q = x * 2 powi (52 - e)"
  define m where "m = round_half_even q"
  define p where "p = (2::rat) powi (e - 52)"
  have p_pos: "0 < p" by (simp add: p_def)
  have fl_eq: "fl x = of_int m * p"
    using assms by (simp add: fl_pos_eq m_def q_def e_def p_def)
  have "q * p = x * ((2::rat) powi (52 - e) * 2 powi (e - 52))"
    by (simp add: q_def p_def)
  then have x_eq: "x = q * p" by (simp add: powi_cancel)
  have "fl x - x = of_int m * p - q * p"
    using fl_eq x_eq by simp
  then have "fl x - x = (of_int m - q) * p"
    by (simp add: algebra_simps)
  then have "\<bar>fl x - x\<bar> = \<bar>of_int m - q\<bar> * p"
    using p_pos by (simp add: abs_mult)
  also have "\<dots> \<le> (1 / 2) * p"
    using round_half_even_near[of q] p_pos by (simp add: m_def mult_right_mono)
  also have "(1 / 2) * p = 2 powi e / 2 ^ 53"
  proof -
    have "(2::rat) powi (e - 52) = 2 powi e * 2 powi (- 52)"
      by (subst power_int_add[symmetric]) simp_all
    also have "(2::rat) powi (- 52) = 1 / 2 ^ 52"
      by (simp add: power_int_minus field_simps)
    finally show ?thesis by (simp add: p_def)
  qed
  also have "\<dots> \<le> x / 2 ^ 53"
    using binade_lower[OF assms] by (simp add: e_def divide_right_mono)
  finally show ?thesis .
qed

lemma fl_upper:
  assumes "0 < x"
  shows "fl x \<le> x + x / 2 ^ 53"
proof -
  have "fl x - x \<le> x / 2 ^ 53"
    using fl_error[OF assms] unfolding abs_le_iff by blast
  then show ?thesis by linarith
qed

lemma fl_lower:
  assumes "0 < x"
  shows "x - x / 2 ^ 53 \<le> fl x"
proof -
  have "- (fl x - x) \<le> x / 2 ^ 53"
    using fl_error[OF assms] unfolding abs_le_iff by blast
  then show ?thesis by linarith
qed

lemma fl_positive:
  assumes "0 < x"
  shows "0 < fl x"
proof -
  have "x / 2 ^ 53 < x" using assms by (simp add: field_simps)
  then show ?thesis using fl_lower[OF assms] by linarith
qed

lemma of_int_less_2p53: "k < 2 ^ 53 \<Longrightarrow> (of_int k :: rat) < 2 ^ 53"
  by (metis of_int_less_iff of_int_numeral of_int_power)

lemma fl_of_int:
  assumes "0 < k" "k < 2 ^ 53"
  shows "fl (of_int k) = of_int k"
proof -
  define e where "e = binade (of_int k)"
  have kpos: "(0::rat) < of_int k" using assms by simp
  have "floorlog 2 (nat k) \<noteq> 0" using assms(1) by (simp add: floorlog_eq_zero_iff)
  then have e0: "0 \<le> e" using assms(1) by (simp add: e_def binade_def)
  have "(2::rat) powi e \<le> of_int k" using binade_lower[OF kpos] by (simp add: e_def)
  also have "(of_int k :: rat) < 2 ^ 53" using assms(2) by (rule of_int_less_2p53)
  finally have "(2::rat) ^ nat e < 2 ^ 53" using e0 by (simp add: power_int_def)
  then have "nat e < 53" by (simp only: power_strict_increasing_iff)
  then have e52: "e \<le> 52" by linarith
  define j where "j = nat (52 - e)"
  have j: "52 - e = int j" using e52 by (simp add: j_def)
  have q: "(of_int k :: rat) * 2 powi (52 - e) = of_int (k * 2 ^ j)"
    by (simp add: j)
  have "fl (of_int k) = of_int (k * 2 ^ j) * 2 powi (e - 52)"
    using kpos by (simp only: fl_pos_eq[OF kpos] e_def[symmetric] q round_half_even_of_int)
  also have "\<dots> = of_int k * ((2::rat) powi (52 - e) * 2 powi (e - 52))"
    by (simp add: j)
  finally show ?thesis by (simp only: powi_cancel mult_1_right)
qed

lemma floor_truediv:
  assumes "0 \<le> n" "n < 2 ^ 53" "0 < d"
  shows "\<lfloor>truediv n d\<rfloor> = n div d"
proof (cases "n = 0")
  case True
  then show ?thesis by (simp add: truediv_def fl_def)
next
  case False
  then have npos: "0 < n" using assms by simp
  define x :: rat where "x = of_int n / of_int d"
  define t :: rat where "t = x / 2 ^ 53"
  define k where "k = n div d"
  define r where "r = n mod d"
  define f :: rat where "f = of_int r / of_int d"
  define g :: rat where "g = 1 / of_int d"
  have xpos: "0 < x" using npos assms by (simp add: x_def)
  have nk: "n = k * d + r" by (simp add: k_def r_def)
  have r0: "0 \<le> r" and rd: "r < d" using assms by (simp_all add: r_def)
  have dpos: "(0::rat) < of_int d" using assms by simp
  have x_eq: "x = of_int k + f"
    using dpos by (simp add: x_def f_def nk field_simps)
  have u: "t < g"
  proof -
    have "of_int n / (2 ^ 53 :: rat) < 1" using of_int_less_2p53[OF assms(2)] by simp
    then have "(of_int n / 2 ^ 53) / of_int d < 1 / (of_int d :: rat)"
      using dpos by (rule divide_strict_right_mono)
    moreover have "t = (of_int n / 2 ^ 53) / of_int d" by (simp add: t_def x_def)
    ultimately show ?thesis by (simp only: g_def)
  qed
  have up: "fl x \<le> x + t" using fl_upper[OF xpos] by (simp only: t_def)
  have lo: "x - t \<le> fl x" using fl_lower[OF xpos] by (simp only: t_def)
  have lower: "of_int k \<le> fl x"
  proof (cases "r = 0")
    case True
    then have xk: "x = of_int k" by (simp add: x_eq f_def)
    have "0 < k" using xpos xk by simp
    moreover have "k \<le> n" using npos by (simp add: k_def int_div_le_self)
    then have "k < 2 ^ 53" using assms(2) by linarith
    ultimately show ?thesis using fl_of_int[of k] by (simp add: xk)
  next
    case False
    then have "1 \<le> r" using r0 by simp
    then have "(1::rat) \<le> of_int r" by simp
    then have "g \<le> f"
      unfolding g_def f_def using dpos by (simp add: divide_right_mono)
    then show ?thesis using u lo x_eq by linarith
  qed
  have upper: "fl x < of_int k + 1"
  proof -
    have "r + 1 \<le> d" using rd by simp
    then have "(of_int r :: rat) + 1 \<le> of_int d" by (metis of_int_1 of_int_add of_int_le_iff)
    then have "((of_int r :: rat) + 1) / of_int d \<le> 1"
      using dpos by (simp add: field_simps)
    then have "f + g \<le> 1"
      by (simp only: f_def g_def add_divide_distrib)
    then show ?thesis using u up x_eq by linarith
  qed
  have "\<lfloor>fl x\<rfloor> = k"
    using lower upper by (simp add: floor_unique)
  then show ?thesis by (simp add: truediv_def x_def k_def)
qed

lemma truediv_nonneg:
  assumes "0 \<le> n" "0 < d"
  shows "0 \<le> truediv n d"
proof (cases "n = 0")
  case True
  then show ?thesis by (simp add: truediv_def fl_def)
next
  case False
  then have "(0::rat) < of_int n / of_int d" using assms by simp
  then show ?thesis unfolding truediv_def using fl_positive by (simp add: less_imp_le)
qed

lemma py_int_truediv:
  assumes "0 \<le> n" "n < 2 ^ 53" "0 < d"
  shows "py_int (truediv n d) = n div d"
  using truediv_nonneg[OF assms(1,3)] floor_truediv[OF assms] by (simp add: py_int_def)

lemma percent_axis:
  assumes "0 \<le> w" "w < 2 ^ 31" "1 \<le> pct" "pct \<le> 100"
  shows "py_int (truediv (w * pct) 100) = w * pct div 100"
proof -
  have "w * pct \<le> w * 100" using assms by (simp add: mult_left_mono)
  then have "w * pct < 2 ^ 53" using assms(2) by simp
  moreover have "0 \<le> w * pct" using assms by simp
  ultimately show ?thesis by (simp add: py_int_truediv)
qed

lemma percent_axis_range:
  fixes w pct :: int
  assumes "0 < w" "w < 2 ^ 31" "1 \<le> pct" "pct \<le> 100"
  shows "0 < max 1 (w * pct div 100)" "max 1 (w * pct div 100) < 2 ^ 31"
proof -
  show "0 < max 1 (w * pct div 100)" by simp
  have "w * pct \<le> w * 100" using assms by (simp add: mult_left_mono)
  then have "w * pct div 100 \<le> w * 100 div 100" by (rule zdiv_mono1) simp
  then show "max 1 (w * pct div 100) < 2 ^ 31" using assms by simp
qed

lemma truediv_upper:
  assumes "0 < m" "0 < w"
  shows "truediv m w \<le> of_int m / of_int w + (of_int m / of_int w) / 2 ^ 53"
  unfolding truediv_def using assms by (intro fl_upper) simp

lemma int_times_float_eq:
  assumes "0 < w" "w < 2 ^ 31"
  shows "int_times_float w s = fl (of_int w * s)"
proof -
  have "w < 2 ^ 53" using assms(2) by simp
  then show ?thesis using assms(1) by (simp add: int_times_float_def fl_of_int)
qed

lemma scale_axis_le_max:
  assumes "0 < m" "m < w" "w < 2 ^ 31" "0 < s" "s \<le> truediv m w"
  shows "py_int (int_times_float w s) \<le> m"
proof -
  define M :: rat where "M = of_int m"
  define W :: rat where "W = of_int w"
  define a where "a = M / W"
  define x where "x = W * s"
  define t where "t = M / 2 ^ 53"
  have wpos: "0 < w" using assms by simp
  have Wpos: "0 < W" using wpos by (simp add: W_def)
  have Mpos: "0 < M" using assms by (simp add: M_def)
  have xpos: "0 < x" using Wpos assms by (simp add: x_def)
  have "s \<le> a + a / 2 ^ 53"
    using assms(5) truediv_upper[OF assms(1) wpos] by (simp add: a_def M_def W_def)
  then have "W * s \<le> W * (a + a / 2 ^ 53)" using Wpos by (simp add: mult_left_mono)
  also have "W * (a + a / 2 ^ 53) = M + t" using Wpos by (simp add: a_def t_def field_simps)
  finally have x_le: "x \<le> M + t" by (simp add: x_def)
  have "m < 2 ^ 31" using assms by simp
  then have "M < 2 ^ 31" unfolding M_def by (metis of_int_less_iff of_int_numeral of_int_power)
  then have t_small: "t < 1 / 4" by (simp add: t_def)
  have t_pos: "0 < t" using Mpos by (simp add: t_def)
  have "t / 2 ^ 53 \<le> t" using t_pos by (simp add: field_simps)
  moreover have "(M + t) / 2 ^ 53 = t + t / 2 ^ 53" by (simp add: t_def add_divide_distrib)
  moreover have "x / 2 ^ 53 \<le> (M + t) / 2 ^ 53" using x_le by (simp add: divide_right_mono)
  ultimately have "x + x / 2 ^ 53 < M + 1" using x_le t_small by linarith
  then have "fl x < of_int (m + 1)" using fl_upper[OF xpos] by (simp add: M_def)
  then have "\<lfloor>fl x\<rfloor> < m + 1" by (simp only: floor_less_iff)
  moreover have "0 \<le> fl x" using fl_positive[OF xpos] by simp
  ultimately show ?thesis
    using int_times_float_eq[OF wpos assms(3)] by (simp add: py_int_def x_def W_def)
qed

lemma truediv_below_one:
  assumes "0 < m" "m < h" "h < 2 ^ 31"
  shows "truediv m h \<le> (1 - 1 / 2 ^ 31) + (1 - 1 / 2 ^ 31) / 2 ^ 53"
proof -
  define a :: rat where "a = of_int m / of_int h"
  have hpos: "0 < h" using assms by simp
  have Hpos: "(0::rat) < of_int h" using hpos by simp
  have "m + 1 \<le> h" using assms by simp
  then have "(of_int m :: rat) + 1 \<le> of_int h" by (metis of_int_1 of_int_add of_int_le_iff)
  then have "(of_int m :: rat) \<le> of_int h - 1" by simp
  then have "a \<le> (of_int h - 1) / of_int h"
    unfolding a_def using Hpos by (simp add: divide_right_mono)
  also have "\<dots> = 1 - 1 / of_int h" using Hpos by (simp add: field_simps)
  finally have a1: "a \<le> 1 - 1 / of_int h" .
  have "(of_int h :: rat) < 2 ^ 31" using assms(3) by (metis of_int_less_iff of_int_numeral of_int_power)
  then have "1 / (2 ^ 31 :: rat) \<le> 1 / of_int h" using Hpos by (simp add: frac_le)
  then have a2: "a \<le> 1 - 1 / 2 ^ 31" using a1 by linarith
  then have "a / 2 ^ 53 \<le> (1 - 1 / 2 ^ 31) / 2 ^ 53" by (simp add: divide_right_mono)
  then show ?thesis
    using truediv_upper[OF assms(1) hpos] a2 unfolding a_def by linarith
qed

lemma truediv_less_one:
  assumes "0 < m" "m < h" "h < 2 ^ 31"
  shows "truediv m h < 1"
proof -
  have "(1 - 1 / 2 ^ 31) + (1 - 1 / 2 ^ 31) / 2 ^ 53 < (1::rat)" by simp
  then show ?thesis using truediv_below_one[OF assms] by linarith
qed

lemma scale_axis_le_self:
  assumes "0 < w" "w < 2 ^ 31" "0 < m" "m < h" "h < 2 ^ 31" "0 < s" "s \<le> truediv m h"
  shows "py_int (int_times_float w s) \<le> w"
proof -
  define W :: rat where "W = of_int w"
  define c :: rat where "c = (1 - 1 / 2 ^ 31) + (1 - 1 / 2 ^ 31) / 2 ^ 53"
  define x where "x = W * s"
  have Wpos: "0 < W" using assms by (simp add: W_def)
  have xpos: "0 < x" using Wpos assms by (simp add: x_def)
  have "s \<le> c" using assms(7) truediv_below_one[OF assms(3,4,5)] by (simp only: c_def)
  then have x_le: "x \<le> W * c" unfolding x_def using Wpos by (simp add: mult_left_mono)
  then have "x / 2 ^ 53 \<le> (W * c) / 2 ^ 53" by (simp add: divide_right_mono)
  then have "x + x / 2 ^ 53 \<le> W * c + (W * c) / 2 ^ 53" using x_le by linarith
  also have "\<dots> = W * (c + c / 2 ^ 53)" by (simp add: algebra_simps)
  also have "\<dots> \<le> W * 1"
  proof (rule mult_left_mono)
    show "c + c / 2 ^ 53 \<le> 1" by (simp add: c_def)
    show "0 \<le> W" using Wpos by simp
  qed
  finally have "fl x \<le> of_int w" using fl_upper[OF xpos] by (simp add: W_def)
  then have "\<lfloor>fl x\<rfloor> \<le> w" by (simp add: floor_le_iff)
  moreover have "0 \<le> fl x" using fl_positive[OF xpos] by simp
  ultimately show ?thesis
    using int_times_float_eq[OF assms(1,2)] by (simp add: py_int_def x_def W_def)
qed

section \<open>The resize transform\<close>

lemma resize_Inr:
  assumes "resize S im sz = Inr out"
  shows "width out = fst sz" "height out = snd sz" "mode out = mode im"
  using assms by (auto simp: resize_def split: if_splits sum.splits)

lemma convert_Inr:
  assumes "convert S im m = Inr out"
  shows "mode out = m" "width out = width im" "height out = height im"
  using assms by (auto simp: convert_def split: sum.splits)

lemma apply_resize_split:
  "apply_resize S img pct mw mh =
     (case apply_resize S img pct 0 0 of Inl e \<Rightarrow> Inl e | Inr img1 \<Rightarrow> apply_resize S img1 100 mw mh)"
  by (simp add: apply_resize_def split: sum.splits)

lemma apply_resize_percent_only:
  assumes "0 \<le> width img" "width img < 2 ^ 31" "0 \<le> height img" "height img < 2 ^ 31"
    "1 \<le> pct" "pct \<le> 100"
  shows "apply_resize S img pct 0 0 =
     (if pct = 100 then Inr img
      else resize S img (max 1 (width img * pct div 100), max 1 (height img * pct div 100)))"
  using percent_axis[OF assms(1,2,5,6)] percent_axis[OF assms(3,4,5,6)]
  by (simp add: apply_resize_def percent_size_def split: sum.splits)

lemma clamp_scale_pos:
  assumes "0 < w" "0 < h"
  shows "0 < clamp_scale mw mh (w, h)"
proof -
  have "0 < mw \<Longrightarrow> 0 < truediv mw w"
    unfolding truediv_def using assms by (intro fl_positive) simp
  moreover have "0 < mh \<Longrightarrow> 0 < truediv mh h"
    unfolding truediv_def using assms by (intro fl_positive) simp
  ultimately show ?thesis by (simp add: clamp_scale_def Let_def)
qed

lemma clamp_scale_le_w: "0 < mw \<Longrightarrow> mw < w \<Longrightarrow> clamp_scale mw mh (w, h) \<le> truediv mw w"
  by (auto simp: clamp_scale_def Let_def min_def)

lemma clamp_scale_le_h: "0 < mh \<Longrightarrow> mh < h \<Longrightarrow> clamp_scale mw mh (w, h) \<le> truediv mh h"
  by (auto simp: clamp_scale_def Let_def min_def)

lemma clamp_scale_one: "\<not> (0 < mw \<and> mw < w) \<Longrightarrow> \<not> (0 < mh \<and> mh < h) \<Longrightarrow> clamp_scale mw mh (w, h) = 1"
  by (auto simp: clamp_scale_def Let_def)

lemma clamp_scale_shrinks:
  assumes "0 < w" "w < 2 ^ 31" "0 < h" "h < 2 ^ 31" "(0 < mw \<and> mw < w) \<or> (0 < mh \<and> mh < h)"
  shows "clamp_scale mw mh (w, h) < 1"
  using assms(5)
proof
  assume a: "0 < mw \<and> mw < w"
  then have "truediv mw w < 1" using truediv_less_one assms(2) by simp
  then show ?thesis using clamp_scale_le_w[of mw w mh h] a by linarith
next
  assume a: "0 < mh \<and> mh < h"
  then have "truediv mh h < 1" using truediv_less_one assms(4) by simp
  then show ?thesis using clamp_scale_le_h[of mh h mw w] a by linarith
qed

lemma scaled_width:
  assumes "0 < w" "w < 2 ^ 31" "0 < h" "h < 2 ^ 31" "clamp_scale mw mh (w, h) < 1"
  shows "fst (scale_size (clamp_scale mw mh (w, h)) (w, h)) \<le> w"
    and "0 < mw \<Longrightarrow> fst (scale_size (clamp_scale mw mh (w, h)) (w, h)) \<le> mw"
proof -
  define s where "s = clamp_scale mw mh (w, h)"
  have spos: "0 < s" unfolding s_def using assms(1,3) by (rule clamp_scale_pos)
  have fst_eq: "fst (scale_size s (w, h)) = py_int (int_times_float w s)"
    by (simp add: scale_size_def)
  have main: "py_int (int_times_float w s) \<le> w \<and> (0 < mw \<longrightarrow> py_int (int_times_float w s) \<le> mw)"
  proof (cases "0 < mw \<and> mw < w")
    case True
    then have "s \<le> truediv mw w" unfolding s_def using clamp_scale_le_w by simp
    then have "py_int (int_times_float w s) \<le> mw"
      using scale_axis_le_max[of mw w s] True assms(2) spos by simp
    then show ?thesis using True by simp
  next
    case False
    then have hb: "0 < mh \<and> mh < h"
      using assms(5) clamp_scale_one[of mw w mh h] by auto
    then have "s \<le> truediv mh h" unfolding s_def using clamp_scale_le_h by simp
    then have "py_int (int_times_float w s) \<le> w"
      using scale_axis_le_self[of w mh h s] hb assms(1,2,4) spos by simp
    then show ?thesis using False by auto
  qed
  show "fst (scale_size (clamp_scale mw mh (w, h)) (w, h)) \<le> w"
    using main fst_eq by (simp add: s_def)
  show "0 < mw \<Longrightarrow> fst (scale_size (clamp_scale mw mh (w, h)) (w, h)) \<le> mw"
    using main fst_eq by (simp add: s_def)
qed

lemma scaled_height:
  assumes "0 < w" "w < 2 ^ 31" "0 < h" "h < 2 ^ 31" "clamp_scale mw mh (w, h) < 1"
  shows "snd (scale_size (clamp_scale mw mh (w, h)) (w, h)) \<le> h"
    and "0 < mh \<Longrightarrow> snd (scale_size (clamp_scale mw mh (w, h)) (w, h)) \<le> mh"
proof -
  define s where "s = clamp_scale mw mh (w, h)"
  have spos: "0 < s" unfolding s_def using assms(1,3) by (rule clamp_scale_pos)
  have snd_eq: "snd (scale_size s (w, h)) = py_int (int_times_float h s)"
    by (simp add: scale_size_def)
  have main: "py_int (int_times_float h s) \<le> h \<and> (0 < mh \<longrightarrow> py_int (int_times_float h s) \<le> mh)"
  proof (cases "0 < mh \<and> mh < h")
    case True
    then have "s \<le> truediv mh h" unfolding s_def using clamp_scale_le_h by simp
    then have "py_int (int_times_float h s) \<le> mh"
      using scale_axis_le_max[of mh h s] True assms(4) spos by simp
    then show ?thesis using True by simp
  next
    case False
    then have wb: "0 < mw \<and> mw < w"
      using assms(5) clamp_scale_one[of mw w mh h] by auto
    then have "s \<le> truediv mw w" unfolding s_def using clamp_scale_le_w by simp
    then have "py_int (int_times_float h s) \<le> h"
      using scale_axis_le_self[of h mw w s] wb assms(2,3,4) spos by simp
    then show ?thesis using False by auto
  qed
  show "snd (scale_size (clamp_scale mw mh (w, h)) (w, h)) \<le> h"
    using main snd_eq by (simp add: s_def)
  show "0 < mh \<Longrightarrow> snd (scale_size (clamp_scale mw mh (w, h)) (w, h)) \<le> mh"
    using main snd_eq by (simp add: s_def)
qed

lemma clamp_step:
  assumes "0 < width i1" "width i1 < 2 ^ 31" "0 < height i1" "height i1 < 2 ^ 31"
    and res: "apply_resize S i1 100 mw mh = Inr out"
  shows "(0 < mw \<longrightarrow> width out \<le> mw) \<and> (0 < mh \<longrightarrow> height out \<le> mh) \<and>
         width out \<le> width i1 \<and> height out \<le> height i1"
proof (cases "clamp_scale mw mh (width i1, height i1) < 1")
  case True
  define sz where "sz = scale_size (clamp_scale mw mh (width i1, height i1)) (width i1, height i1)"
  have bounded: "0 < mw \<or> 0 < mh"
    using True clamp_scale_one[of mw "width i1" mh "height i1"] by auto
  then have "resize S i1 sz = Inr out"
    using res True by (auto simp: apply_resize_def sz_def Let_def)
  then have "width out = fst sz" "height out = snd sz" by (simp_all add: resize_Inr)
  then show ?thesis
    unfolding sz_def
    using scaled_width[OF assms(1-4) True] scaled_height[OF assms(1-4) True] by simp
next
  case False
  then have "out = i1" using res by (auto simp: apply_resize_def Let_def split: if_splits)
  moreover have "\<not> (0 < mw \<and> mw < width i1)" "\<not> (0 < mh \<and> mh < height i1)"
    using False clamp_scale_shrinks[OF assms(1-4), of mw mh] by auto
  ultimately show ?thesis by auto
qed

lemma shrink_factor_pos:
  assumes "0 < w" "0 < h"
  shows "0 < shrink_factor mw mh (w, h)"
  using assms by (simp add: shrink_factor_def)

lemma shrink_factor_less_one:
  assumes "0 < w" "0 < h"
  shows "shrink_factor mw mh (w, h) < 1 \<longleftrightarrow> (0 < mw \<and> mw < w) \<or> (0 < mh \<and> mh < h)"
  using assms by (auto simp: shrink_factor_def min_less_iff_disj)

lemma shrink_factor_le_w: "0 < mw \<Longrightarrow> 0 < w \<Longrightarrow> shrink_factor mw mh (w, h) \<le> of_int mw / of_int w"
  by (simp add: shrink_factor_def min_le_iff_disj)

lemma shrink_factor_le_h: "0 < mh \<Longrightarrow> 0 < h \<Longrightarrow> shrink_factor mw mh (w, h) \<le> of_int mh / of_int h"
  by (simp add: shrink_factor_def min_le_iff_disj)

lemma shrink_factor_cases:
  assumes "0 < w" "0 < h" "shrink_factor mw mh (w, h) < 1"
  shows "(0 < mw \<and> mw < w \<and> shrink_factor mw mh (w, h) = of_int mw / of_int w) \<or>
         (0 < mh \<and> mh < h \<and> shrink_factor mw mh (w, h) = of_int mh / of_int h)"
  using assms by (auto simp: shrink_factor_def min_def split: if_splits)

lemma clamp_scale_cases:
  "clamp_scale mw mh (w, h) = 1 \<or>
   (0 < mw \<and> mw < w \<and> clamp_scale mw mh (w, h) = truediv mw w) \<or>
   (0 < mh \<and> mh < h \<and> clamp_scale mw mh (w, h) = truediv mh h)"
  by (auto simp: clamp_scale_def Let_def min_def)

lemma below_mono: "x \<le> y \<Longrightarrow> x - x / 2 ^ 53 \<le> y - y / (2 ^ 53 :: rat)"
  by (simp add: field_simps)

lemma truediv_lower:
  assumes "0 < m" "0 < w"
  shows "of_int m / of_int w - (of_int m / of_int w) / 2 ^ 53 \<le> truediv m w"
  unfolding truediv_def using assms by (intro fl_lower) simp

lemma clamp_scale_near:
  assumes "0 < w" "0 < h" "shrink_factor mw mh (w, h) < 1"
  shows "shrink_factor mw mh (w, h) - shrink_factor mw mh (w, h) / 2 ^ 53 \<le> clamp_scale mw mh (w, h)"
    and "clamp_scale mw mh (w, h) \<le> shrink_factor mw mh (w, h) + shrink_factor mw mh (w, h) / 2 ^ 53"
proof -
  define f where "f = shrink_factor mw mh (w, h)"
  define s where "s = clamp_scale mw mh (w, h)"
  have fpos: "0 < f" unfolding f_def using assms(1,2) by (rule shrink_factor_pos)
  have f1: "f < 1" using assms(3) by (simp add: f_def)
  have "f / 2 ^ 53 \<ge> 0" using fpos by simp
  then have one: "f - f / 2 ^ 53 \<le> 1" using f1 by linarith
  have lo_w: "f - f / 2 ^ 53 \<le> truediv mw w" if "0 < mw"
    using below_mono[OF shrink_factor_le_w[OF that assms(1), of mh h]] truediv_lower[OF that assms(1)]
    by (simp add: f_def)
  have lo_h: "f - f / 2 ^ 53 \<le> truediv mh h" if "0 < mh"
    using below_mono[OF shrink_factor_le_h[OF that assms(2), of mw w]] truediv_lower[OF that assms(2)]
    by (simp add: f_def)
  show "shrink_factor mw mh (w, h) - shrink_factor mw mh (w, h) / 2 ^ 53 \<le> clamp_scale mw mh (w, h)"
    using clamp_scale_cases[of mw mh w h] one lo_w lo_h by (auto simp: f_def)
  show "clamp_scale mw mh (w, h) \<le> shrink_factor mw mh (w, h) + shrink_factor mw mh (w, h) / 2 ^ 53"
    using shrink_factor_cases[OF assms]
  proof
    assume a: "0 < mw \<and> mw < w \<and> shrink_factor mw mh (w, h) = of_int mw / of_int w"
    then have "clamp_scale mw mh (w, h) \<le> truediv mw w" using clamp_scale_le_w by simp
    then show ?thesis using truediv_upper[of mw w] a assms(1) by simp
  next
    assume a: "0 < mh \<and> mh < h \<and> shrink_factor mw mh (w, h) = of_int mh / of_int h"
    then have "clamp_scale mw mh (w, h) \<le> truediv mh h" using clamp_scale_le_h by simp
    then show ?thesis using truediv_upper[of mh h] a assms(2) by simp
  qed
qed

lemma scale_axis_near:
  assumes "0 < w" "w < 2 ^ 31" "0 < f" "f - f / 2 ^ 53 \<le> s" "s \<le> f + f / 2 ^ 53"
  shows "of_int w * f - of_int w * f / 2 ^ 51 - 1 < of_int (py_int (int_times_float w s))"
    and "of_int (py_int (int_times_float w s)) \<le> of_int w * f + of_int w * f / 2 ^ 51"
proof -
  define W :: rat where "W = of_int w"
  define x where "x = W * f"
  define t where "t = x / 2 ^ 53"
  define y where "y = W * s"
  define v where "v = fl y"
  have Wpos: "0 < W" using assms(1) by (simp add: W_def)
  have xpos: "0 < x" using Wpos assms(3) by (simp add: x_def)
  have tpos: "0 < t" using xpos by (simp add: t_def)
  have "f / 2 ^ 53 < f" using assms(3) by (simp add: field_simps)
  then have spos: "0 < s" using assms(4) by linarith
  have ypos: "0 < y" using Wpos spos by (simp add: y_def)
  have "W * s \<le> W * (f + f / 2 ^ 53)" using Wpos assms(5) by (simp add: mult_left_mono)
  also have "W * (f + f / 2 ^ 53) = x + t" by (simp add: x_def t_def algebra_simps)
  finally have y_hi: "y \<le> x + t" by (simp add: y_def)
  have "W * (f - f / 2 ^ 53) \<le> W * s" using Wpos assms(4) by (simp add: mult_left_mono)
  moreover have "W * (f - f / 2 ^ 53) = x - t" by (simp add: x_def t_def algebra_simps)
  ultimately have y_lo: "x - t \<le> y" by (simp add: y_def)
  have "y / 2 ^ 53 \<le> (x + t) / 2 ^ 53" using y_hi by (simp add: divide_right_mono)
  moreover have "(x + t) / 2 ^ 53 = t + t / 2 ^ 53" by (simp add: t_def add_divide_distrib)
  moreover have "t / 2 ^ 53 \<le> t" using tpos by (simp add: field_simps)
  ultimately have yu: "y / 2 ^ 53 \<le> 2 * t" by linarith
  have four: "x / 2 ^ 51 = 4 * t" by (simp add: t_def)
  have v_hi: "v \<le> x + 4 * t"
    using fl_upper[OF ypos] y_hi yu tpos unfolding v_def by linarith
  have v_lo: "x - 4 * t \<le> v"
    using fl_lower[OF ypos] y_lo yu tpos unfolding v_def by linarith
  have vpos: "0 \<le> v" unfolding v_def using fl_positive[OF ypos] by simp
  have r: "py_int (int_times_float w s) = \<lfloor>v\<rfloor>"
    using int_times_float_eq[OF assms(1,2), of s] vpos by (simp add: py_int_def v_def y_def W_def)
  have fl1: "of_int \<lfloor>v\<rfloor> \<le> v" and fl2: "v < of_int \<lfloor>v\<rfloor> + 1" by linarith+
  show "of_int w * f - of_int w * f / 2 ^ 51 - 1 < of_int (py_int (int_times_float w s))"
    using v_lo fl2 four unfolding r x_def W_def by linarith
  show "of_int (py_int (int_times_float w s)) \<le> of_int w * f + of_int w * f / 2 ^ 51"
    using v_hi fl1 four unfolding r x_def W_def by linarith
qed

lemma clamp_scale_less_one:
  assumes "0 < w" "w < 2 ^ 31" "0 < h" "h < 2 ^ 31"
  shows "clamp_scale mw mh (w, h) < 1 \<longleftrightarrow> shrink_factor mw mh (w, h) < 1"
  using clamp_scale_shrinks[OF assms, of mw mh] clamp_scale_one[of mw w mh h]
    shrink_factor_less_one[OF assms(1,3), of mw mh]
  by auto

lemma clamp_only:
  assumes "0 < width i1" "width i1 < 2 ^ 31" "0 < height i1" "height i1 < 2 ^ 31"
  shows "\<exists>w2 h2.
           of_int (width i1) * shrink_factor mw mh (width i1, height i1)
             - of_int (width i1) * shrink_factor mw mh (width i1, height i1) / 2 ^ 51 - 1 < of_int w2 \<and>
           of_int w2 \<le> of_int (width i1) * shrink_factor mw mh (width i1, height i1)
             + of_int (width i1) * shrink_factor mw mh (width i1, height i1) / 2 ^ 51 \<and>
           of_int (height i1) * shrink_factor mw mh (width i1, height i1)
             - of_int (height i1) * shrink_factor mw mh (width i1, height i1) / 2 ^ 51 - 1 < of_int h2 \<and>
           of_int h2 \<le> of_int (height i1) * shrink_factor mw mh (width i1, height i1)
             + of_int (height i1) * shrink_factor mw mh (width i1, height i1) / 2 ^ 51 \<and>
           apply_resize S i1 100 mw mh =
             (if shrink_factor mw mh (width i1, height i1) < 1 then resize S i1 (w2, h2)
              else Inr i1)"
proof (cases "shrink_factor mw mh (width i1, height i1) < 1")
  case True
  define f where "f = shrink_factor mw mh (width i1, height i1)"
  define s where "s = clamp_scale mw mh (width i1, height i1)"
  have fpos: "0 < f" unfolding f_def using assms(1,3) by (rule shrink_factor_pos)
  have near: "f - f / 2 ^ 53 \<le> s" "s \<le> f + f / 2 ^ 53"
    unfolding f_def s_def using clamp_scale_near[OF assms(1,3) True] by simp_all
  have s1: "s < 1" unfolding s_def using True clamp_scale_less_one[OF assms] by simp
  have pos: "0 < mw \<or> 0 < mh" using True shrink_factor_less_one[OF assms(1,3), of mw mh] by auto
  have "apply_resize S i1 100 mw mh = resize S i1 (scale_size s (width i1, height i1))"
    using s1 pos by (auto simp: apply_resize_def Let_def s_def)
  then have "apply_resize S i1 100 mw mh =
      resize S i1 (py_int (int_times_float (width i1) s), py_int (int_times_float (height i1) s))"
    by (simp add: scale_size_def)
  then show ?thesis
    using scale_axis_near[OF assms(1,2) fpos near] scale_axis_near[OF assms(3,4) fpos near] True
    unfolding f_def
    by (intro exI[of _ "py_int (int_times_float (width i1) s)"]
          exI[of _ "py_int (int_times_float (height i1) s)"]) simp
next
  case False
  then have f1: "shrink_factor mw mh (width i1, height i1) = 1"
    by (simp add: shrink_factor_def min_def split: if_splits)
  have "\<not> clamp_scale mw mh (width i1, height i1) < 1"
    using False clamp_scale_less_one[OF assms] by simp
  then have "apply_resize S i1 100 mw mh = Inr i1"
    by (simp add: apply_resize_def Let_def)
  moreover have "(of_int (width i1) :: rat) - of_int (width i1) / 2 ^ 51 - 1 < of_int (width i1)"
    "(of_int (height i1) :: rat) - of_int (height i1) / 2 ^ 51 - 1 < of_int (height i1)"
    "(of_int (width i1) :: rat) \<le> of_int (width i1) + of_int (width i1) / 2 ^ 51"
    "(of_int (height i1) :: rat) \<le> of_int (height i1) + of_int (height i1) / 2 ^ 51"
    using assms(1,3) by simp_all
  ultimately show ?thesis using False f1
    by (intro exI[of _ "width i1"] exI[of _ "height i1"]) simp
qed

text \<open>
  Claim C3. For an image whose sides are positive and below \<open>2 ^ 31\<close> and a percentage from
  1 to 100, the resize transform is the percentage step followed by one clamp. The
  percentage step, skipped at 100, resizes to \<open>w1 = max 1 (w * pct div 100)\<close> by
  \<open>h1 = max 1 (h * pct div 100)\<close>. The clamp uses one factor \<open>f\<close> for both sides, the
  shrink factor of the specification for the maximum bounds, which is at most 1: when
  \<open>f < 1\<close> it resizes to \<open>w2\<close> by \<open>h2\<close>, the products \<open>w1 * f\<close> and \<open>h1 * f\<close> cut to
  whole pixels up to the rounding of the floating-point arithmetic, and otherwise it leaves
  the image as it is. A 100 by 60 image with 50 percent and a maximum width of 40 is
  resized to 50 by 30 and then to 40 by 24.
\<close>

theorem resize_percent_then_clamp:
  assumes "0 < width img" "width img < 2 ^ 31" "0 < height img" "height img < 2 ^ 31"
    and "1 \<le> pct" "pct \<le> 100"
  shows "(let w1 = (if pct = 100 then width img else max 1 (width img * pct div 100));
              h1 = (if pct = 100 then height img else max 1 (height img * pct div 100));
              f = shrink_factor max_w max_h (w1, h1)
          in \<exists>w2 h2.
               of_int w1 * f - of_int w1 * f / 2 ^ 51 - 1 < of_int w2 \<and>
               of_int w2 \<le> of_int w1 * f + of_int w1 * f / 2 ^ 51 \<and>
               of_int h1 * f - of_int h1 * f / 2 ^ 51 - 1 < of_int h2 \<and>
               of_int h2 \<le> of_int h1 * f + of_int h1 * f / 2 ^ 51 \<and>
               apply_resize S img pct max_w max_h =
                 (case (if pct = 100 then Inr img else resize S img (w1, h1)) of
                    Inl e \<Rightarrow> Inl e
                  | Inr img1 \<Rightarrow> if f < 1 then resize S img1 (w2, h2) else Inr img1)) \<and>
         (width img = 100 \<and> height img = 60 \<longrightarrow>
            apply_resize S img 50 40 0 =
              (case resize S img (50, 30) of
                 Inl e \<Rightarrow> Inl e
               | Inr img1 \<Rightarrow> resize S img1 (40, 24)))"
proof
  define w1 where "w1 = (if pct = 100 then width img else max 1 (width img * pct div 100))"
  define h1 where "h1 = (if pct = 100 then height img else max 1 (height img * pct div 100))"
  define f where "f = shrink_factor max_w max_h (w1, h1)"
  define first where
    "first = (if pct = 100 then Inr img else resize S img (w1, h1))"
  have range: "0 < w1" "w1 < 2 ^ 31" "0 < h1" "h1 < 2 ^ 31"
    using assms(1-4) percent_axis_range[OF assms(1,2,5,6)] percent_axis_range[OF assms(3,4,5,6)]
    by (auto simp: w1_def h1_def)
  have split: "apply_resize S img pct max_w max_h =
      (case first of Inl e \<Rightarrow> Inl e | Inr img1 \<Rightarrow> apply_resize S img1 100 max_w max_h)"
    using apply_resize_split[of S img pct max_w max_h]
      apply_resize_percent_only[OF _ assms(2) _ assms(4-6), of S] assms(1,3)
    by (simp add: first_def w1_def h1_def)
  have dims: "width img1 = w1 \<and> height img1 = h1" if "first = Inr img1" for img1
    using that by (auto simp: first_def w1_def h1_def resize_Inr split: if_splits)
  have "\<exists>w2 h2.
          of_int w1 * f - of_int w1 * f / 2 ^ 51 - 1 < of_int w2 \<and>
          of_int w2 \<le> of_int w1 * f + of_int w1 * f / 2 ^ 51 \<and>
          of_int h1 * f - of_int h1 * f / 2 ^ 51 - 1 < of_int h2 \<and>
          of_int h2 \<le> of_int h1 * f + of_int h1 * f / 2 ^ 51 \<and>
          apply_resize S img pct max_w max_h =
            (case first of
               Inl e \<Rightarrow> Inl e
             | Inr img1 \<Rightarrow> if f < 1 then resize S img1 (w2, h2) else Inr img1)"
  proof (cases first)
    case (Inl e)
    define i0 where "i0 = img\<lparr>width := w1, height := h1\<rparr>"
    have "0 < width i0" "width i0 < 2 ^ 31" "0 < height i0" "height i0 < 2 ^ 31"
      using range by (simp_all add: i0_def)
    from clamp_only[OF this, of max_w max_h S]
    show ?thesis using Inl split by (auto simp: i0_def f_def)
  next
    case (Inr img1)
    have "0 < width img1" "width img1 < 2 ^ 31" "0 < height img1" "height img1 < 2 ^ 31"
      using range dims[OF Inr] by simp_all
    from clamp_only[OF this, of max_w max_h S]
    show ?thesis using Inr split dims[OF Inr] by (auto simp: f_def)
  qed
  then show "(let w1 = (if pct = 100 then width img else max 1 (width img * pct div 100));
              h1 = (if pct = 100 then height img else max 1 (height img * pct div 100));
              f = shrink_factor max_w max_h (w1, h1)
          in \<exists>w2 h2.
               of_int w1 * f - of_int w1 * f / 2 ^ 51 - 1 < of_int w2 \<and>
               of_int w2 \<le> of_int w1 * f + of_int w1 * f / 2 ^ 51 \<and>
               of_int h1 * f - of_int h1 * f / 2 ^ 51 - 1 < of_int h2 \<and>
               of_int h2 \<le> of_int h1 * f + of_int h1 * f / 2 ^ 51 \<and>
               apply_resize S img pct max_w max_h =
                 (case (if pct = 100 then Inr img else resize S img (w1, h1)) of
                    Inl e \<Rightarrow> Inl e
                  | Inr img1 \<Rightarrow> if f < 1 then resize S img1 (w2, h2) else Inr img1))"
    unfolding Let_def w1_def[symmetric] h1_def[symmetric] f_def[symmetric] first_def[symmetric] .
next
  show "width img = 100 \<and> height img = 60 \<longrightarrow>
            apply_resize S img 50 40 0 =
              (case resize S img (50, 30) of
                 Inl e \<Rightarrow> Inl e
               | Inr img1 \<Rightarrow> resize S img1 (40, 24))"
  proof
    assume d: "width img = 100 \<and> height img = 60"
    have p: "percent_size 50 (100, 60) = (50, 30)" by code_simp
    have c: "clamp_scale 40 0 (50, 30) < 1" by code_simp
    have s: "scale_size (clamp_scale 40 0 (50, 30)) (50, 30) = (40, 24)" by code_simp
    show "apply_resize S img 50 40 0 =
              (case resize S img (50, 30) of
                 Inl e \<Rightarrow> Inl e
               | Inr img1 \<Rightarrow> resize S img1 (40, 24))"
    proof (cases "resize S img (50, 30)")
      case (Inl e)
      then show ?thesis using d p by (simp add: apply_resize_def)
    next
      case (Inr img1)
      then have "width img1 = 50" "height img1 = 30" by (simp_all add: resize_Inr)
      then show ?thesis using d p c s Inr by (simp add: apply_resize_def Let_def)
    qed
  qed
qed

lemma example_resize: "apply_resize (sys_picky :: string sys) img_100x60 50 40 0 = Inr img_40x24"
  by code_simp

lemma example_percent: "apply_resize (sys_picky :: string sys) img_100x60 50 0 0 = Inr img_50x30"
  by code_simp

theorem resize_percent_then_clamp_witness:
  "0 < width img_100x60 \<and> width img_100x60 < 2 ^ 31 \<and>
   0 < height img_100x60 \<and> height img_100x60 < 2 ^ 31 \<and>
   apply_resize (sys_picky :: string sys) img_100x60 50 40 0 = Inr img_40x24"
proof -
  have d: "width img_100x60 = 100" "height img_100x60 = 60"
    by code_simp+
  have r: "resize (sys_picky :: string sys) img_100x60 (50, 30) = Inr img_50x30"
    "resize (sys_picky :: string sys) img_50x30 (40, 24) = Inr img_40x24"
    by code_simp+
  have "apply_resize (sys_picky :: string sys) img_100x60 50 40 0 =
      (case resize (sys_picky :: string sys) img_100x60 (50, 30) of
         Inl e \<Rightarrow> Inl e
       | Inr img1 \<Rightarrow> resize (sys_picky :: string sys) img1 (40, 24))"
    using resize_percent_then_clamp[where img = img_100x60 and pct = 50 and max_w = 40
        and max_h = 0 and S = "sys_picky :: string sys", THEN conjunct2]
      d
    by simp
  then show ?thesis using d r by simp
qed

text \<open>
  Claim C4. For an image whose sides are positive and below \<open>2 ^ 31\<close>, a percentage from 1
  to 100 and maximum bounds that are not negative, the image that the resize transform
  returns is no wider than a positive maximum width, no higher than a positive maximum
  height, and no larger on either side than the image of the percentage step alone.
\<close>

theorem resize_within_bounds:
  assumes "0 < width img" "width img < 2 ^ 31" "0 < height img" "height img < 2 ^ 31"
    and "1 \<le> pct" "pct \<le> 100" "0 \<le> max_w" "0 \<le> max_h"
    and res: "apply_resize S img pct max_w max_h = Inr out"
  shows "(0 < max_w \<longrightarrow> width out \<le> max_w) \<and> (0 < max_h \<longrightarrow> height out \<le> max_h) \<and>
         (\<exists>img1. apply_resize S img pct 0 0 = Inr img1 \<and>
                 width out \<le> width img1 \<and> height out \<le> height img1)"
proof -
  obtain img1 where p: "apply_resize S img pct 0 0 = Inr img1"
    and c: "apply_resize S img1 100 max_w max_h = Inr out"
    using res apply_resize_split[of S img pct max_w max_h] by (auto split: sum.splits)
  have range: "0 < width img1 \<and> width img1 < 2 ^ 31 \<and> 0 < height img1 \<and> height img1 < 2 ^ 31"
  proof (cases "pct = 100")
    case True
    then show ?thesis using p assms(1-4) by (simp add: apply_resize_def)
  next
    case False
    then have "resize S img (max 1 (width img * pct div 100), max 1 (height img * pct div 100)) = Inr img1"
      using p apply_resize_percent_only[OF _ assms(2) _ assms(4-6), of S] assms(1,3) by simp
    then have "width img1 = max 1 (width img * pct div 100)" "height img1 = max 1 (height img * pct div 100)"
      by (simp_all add: resize_Inr)
    then show ?thesis
      using percent_axis_range[OF assms(1,2,5,6)] percent_axis_range[OF assms(3,4,5,6)] by simp
  qed
  then show ?thesis using clamp_step[of img1 S max_w max_h out] c p by auto
qed

theorem resize_within_bounds_witness:
  "apply_resize (sys_picky :: string sys) img_100x60 50 40 0 = Inr img_40x24 \<and>
   width img_40x24 \<le> 40 \<and> width img_40x24 \<le> width img_50x30 \<and>
   height img_40x24 \<le> height img_50x30"
  using resize_within_bounds[of img_100x60 50 40 0 "sys_picky :: string sys" img_40x24]
    example_resize example_percent
  by (simp add: img_100x60_def img_40x24_def img_50x30_def)

section \<open>Saving one image\<close>

lemma image_save_saves:
  "saves (snd (image_save S im p fmt kw w)) = saves w @ [(p, im, fmt, kw)]"
  by (simp add: image_save_def Let_def split: save_result.splits leftover.splits)

lemma apply_resize_mode:
  assumes "apply_resize S im pct mw mh = Inr out"
  shows "mode out = mode im"
  using assms
  by (auto simp: apply_resize_def Let_def resize_Inr split: sum.splits if_splits)

text \<open>
  Claim C2. \<open>save_one\<close> returns for every image, path, format and settings: the result is
  \<open>(False, e)\<close> with the text \<open>e\<close> of the exception of the first step that raises (the
  conversion to RGB, the resize, the save), and \<open>(True, ''ok'')\<close> when no step raises.
\<close>

theorem save_one_captures_exceptions:
  "fst (save_one S img out_path fmt cfg w) =
     (case (if drop_alpha cfg \<or> fmt = ''JPEG'' then convert S img ''RGB'' else Inr img) of
        Inl e \<Rightarrow> (False, e)
      | Inr im \<Rightarrow>
          (case apply_resize S im (resize_percent cfg) (max_width cfg) (max_height cfg) of
             Inl e \<Rightarrow> (False, e)
           | Inr im2 \<Rightarrow>
               (case encode S im2 fmt (save_kwargs fmt cfg) of
                  SaveRaised e left \<Rightarrow> (False, e)
                | Written b \<Rightarrow> (True, ''ok''))))"
  by (simp add: save_one_def save_one_body_def image_save_def Let_def
      split: sum.splits save_result.splits prod.splits option.splits)

theorem save_one_captures_exceptions_witness:
  "fst (save_one sys_picky img_blank ''out/x.png'' ''PNG'' cfg_png_jpeg two_sources) =
     (False, ''encoder error'')"
proof -
  have a: "\<not> drop_alpha cfg_png_jpeg" by code_simp
  have r: "apply_resize (sys_picky :: string sys) img_blank (resize_percent cfg_png_jpeg) (max_width cfg_png_jpeg)
             (max_height cfg_png_jpeg) = Inr (img_blank\<lparr>width := 40, height := 24\<rparr>)"
    by code_simp
  have e: "encode (sys_picky :: string sys) (img_blank\<lparr>width := 40, height := 24\<rparr>) ''PNG''
             (save_kwargs ''PNG'' cfg_png_jpeg) = SaveRaised ''encoder error'' Removed"
    by code_simp
  show ?thesis
    using save_one_captures_exceptions[of sys_picky img_blank "''out/x.png''" "''PNG''"
        cfg_png_jpeg two_sources] a r e
    by simp
qed

lemma save_one_world:
  "snd (save_one S img out fmt cfg w) = snd (save_one_body S img out fmt cfg w)"
  by (simp add: save_one_def split: prod.splits option.splits)

lemma save_one_jpeg_saves:
  "saves (snd (save_one S img out ''JPEG'' cfg w)) = saves w \<or>
   (\<exists>im kw. saves (snd (save_one S img out ''JPEG'' cfg w)) = saves w @ [(out, im, ''JPEG'', kw)] \<and>
            mode im = ''RGB'')"
proof (cases "convert S img ''RGB''")
  case (Inl e)
  then show ?thesis by (simp add: save_one_world save_one_body_def)
next
  case (Inr im)
  then have m: "mode im = ''RGB''" by (simp add: convert_Inr)
  show ?thesis
  proof (cases "apply_resize S im (resize_percent cfg) (max_width cfg) (max_height cfg)")
    case (Inl e)
    then show ?thesis using Inr by (simp add: save_one_world save_one_body_def)
  next
    case r: (Inr im2)
    then have "mode im2 = ''RGB''" using m apply_resize_mode by fastforce
    moreover have "saves (snd (save_one S img out ''JPEG'' cfg w)) =
        saves w @ [(out, im2, ''JPEG'', save_kwargs ''JPEG'' cfg)]"
      using Inr r image_save_saves[of S im2 out "''JPEG''" "save_kwargs ''JPEG'' cfg" w]
      by (simp add: save_one_world save_one_body_def)
    ultimately show ?thesis by blast
  qed
qed

lemma image_open_saves: "saves (snd (image_open S p w)) = saves w"
  by (simp add: image_open_def)

lemma resize_and_convert_saves:
  "(fst (resize_and_convert S inp outp sz q w) \<noteq> None \<and>
    saves (snd (resize_and_convert S inp outp sz q w)) = saves w) \<or>
   (\<exists>im. saves (snd (resize_and_convert S inp outp sz q w)) =
            saves w @ [(outp, im, ''JPEG'', [(''quality'', KInt q)])] \<and>
         mode im = ''RGB'' \<and> width im = fst sz \<and> height im = snd sz)"
proof (cases "image_open S inp w")
  case (Pair r w1)
  then have w1: "saves w1 = saves w" using image_open_saves[of S inp w] by simp
  show ?thesis
  proof (cases r)
    case (Inl e)
    then show ?thesis using Pair w1 by (simp add: resize_and_convert_def)
  next
    case (Inr img)
    show ?thesis
    proof (cases "convert S img ''RGB''")
      case (Inl e)
      then show ?thesis using Pair Inr w1 by (simp add: resize_and_convert_def)
    next
      case c: (Inr img1)
      show ?thesis
      proof (cases "resize S img1 sz")
        case (Inl e)
        then show ?thesis using Pair Inr c w1 by (simp add: resize_and_convert_def)
      next
        case r2: (Inr img2)
        have "mode img2 = ''RGB''" "width img2 = fst sz" "height img2 = snd sz"
          using r2 c by (simp_all add: resize_Inr convert_Inr)
        moreover have "saves (snd (resize_and_convert S inp outp sz q w)) =
            saves w @ [(outp, img2, ''JPEG'', [(''quality'', KInt q)])]"
          using Pair Inr c r2 w1 image_save_saves[of S img2 outp "''JPEG''" "[(''quality'', KInt q)]" w1]
          by (simp add: resize_and_convert_def)
        ultimately show ?thesis by blast
      qed
    qed
  qed
qed

text \<open>
  Claim C5. Whatever the settings, a save as JPEG by \<open>save_one\<close> and the save by
  \<open>resize_and_convert\<close> hand an image of mode RGB to the encoder: the trace of saves is
  unchanged, or extended by one JPEG save of an RGB image.
\<close>

theorem jpeg_encoder_input_is_rgb:
  "(saves (snd (save_one S img out ''JPEG'' cfg w)) = saves w \<or>
    (\<exists>im kw. saves (snd (save_one S img out ''JPEG'' cfg w)) = saves w @ [(out, im, ''JPEG'', kw)] \<and>
             mode im = ''RGB'')) \<and>
   (saves (snd (resize_and_convert T inp outp sz q v)) = saves v \<or>
    (\<exists>im kw. saves (snd (resize_and_convert T inp outp sz q v)) = saves v @ [(outp, im, ''JPEG'', kw)] \<and>
             mode im = ''RGB''))"
  using save_one_jpeg_saves[of S img out cfg w] resize_and_convert_saves[of T inp outp sz q v]
  by blast

lemma example_jpeg_save:
  "saves (snd (save_one sys_picky img_100x60 ''out/x.jpg'' ''JPEG'' cfg_png_jpeg two_sources)) =
     [(''out/x.jpg'', \<lparr>width = 40, height = 24, mode = ''RGB'', pixels = [7]\<rparr>, ''JPEG'',
       [(''quality'', KInt 90)])]"
  by code_simp

theorem jpeg_encoder_input_is_rgb_witness:
  "drop_alpha cfg_png_jpeg = False \<and> mode img_100x60 = ''RGBA'' \<and>
   (\<exists>im kw. saves (snd (save_one sys_picky img_100x60 ''out/x.jpg'' ''JPEG'' cfg_png_jpeg
                           two_sources)) = [(''out/x.jpg'', im, ''JPEG'', kw)] \<and>
            mode im = ''RGB'')"
  using jpeg_encoder_input_is_rgb[of sys_picky img_100x60 "''out/x.jpg''" cfg_png_jpeg two_sources
      sys_picky "''in/good.png''" "''out/good.jpg''" "(1024, 1024)" 90 two_sources]
    example_jpeg_save
  by (simp add: cfg_png_jpeg_def img_100x60_def two_sources_def)

section \<open>The PNG to JPG tool\<close>





section \<open>Batch export\<close>

lemma export_formats_errors:
  "export_formats S out_dir cfg path img fmts (errors, w) =
     (errors @ fst (export_formats S out_dir cfg path img fmts ([], w)),
      snd (export_formats S out_dir cfg path img fmts ([], w)))"
proof (induction fmts arbitrary: errors w)
  case Nil
  then show ?case by simp
next
  case (Cons fmt fmts)
  define out_path where "out_path = path_join out_dir (splitext_root (basename path) @ format_ext fmt)"
  obtain ok msg w1 where s: "save_one S img out_path fmt cfg w = ((ok, msg), w1)"
    by (metis prod.exhaust)
  show ?case
  proof (cases ok)
    case True
    then show ?thesis
      using s Cons.IH[of errors w1] by (simp add: out_path_def[symmetric])
  next
    case False
    define line where "line = basename path @ '' '' @ arrow @ '' '' @ fmt @ '': '' @ msg"
    have step: "export_formats S out_dir cfg path img (fmt # fmts) (es, w) =
        export_formats S out_dir cfg path img fmts (es @ [line], w1)" for es
      using s False by (simp add: out_path_def line_def)
    show ?thesis
      unfolding step[of errors] step[of "[]"]
      using Cons.IH[of "errors @ [line]" w1] Cons.IH[of "[line]" w1] by simp
  qed
qed

lemma export_sources_errors:
  "export_sources S out_dir cfg paths (errors, w) =
     (errors @ fst (export_sources S out_dir cfg paths ([], w)),
      snd (export_sources S out_dir cfg paths ([], w)))"
proof (induction paths arbitrary: errors w)
  case Nil
  then show ?case by simp
next
  case (Cons path paths)
  show ?case
  proof (cases "load_image S path w")
    case (Pair r w1)
    show ?thesis
    proof (cases r)
      case None
      then show ?thesis
        using Pair Cons.IH[of "errors @ [''Open failed: '' @ path]" w1]
          Cons.IH[of "[''Open failed: '' @ path]" w1]
        by simp
    next
      case (Some img)
      obtain e2 w2 where f: "export_formats S out_dir cfg path img (formats cfg) ([], w1) = (e2, w2)"
        by (cases "export_formats S out_dir cfg path img (formats cfg) ([], w1)")
      then have g: "export_formats S out_dir cfg path img (formats cfg) (errors, w1) = (errors @ e2, w2)"
        using export_formats_errors[of S out_dir cfg path img "formats cfg" errors w1] by simp
      show ?thesis
        using Pair Some f g Cons.IH[of "errors @ e2" w2] Cons.IH[of e2 w2]
        by simp
    qed
  qed
qed

text \<open>
  Claim C7 as stated fails: with the formats PNG and JPEG, a source that cannot be decoded
  gives one failure entry, not two, while the other source is saved in both formats.
\<close>

theorem export_decode_failure_counterexample:
  "formats cfg_png_jpeg = [''PNG'', ''JPEG''] \<and>
   fst (load_image sys_picky ''in/bad.png'' two_sources) = None \<and>
   fst (export_sources sys_picky ''out'' cfg_png_jpeg [''in/bad.png'', ''in/good.png'']
          ([], two_sources)) = [''Open failed: in/bad.png''] \<and>
   length (saves (snd (export_sources sys_picky ''out'' cfg_png_jpeg
                         [''in/bad.png'', ''in/good.png''] ([], two_sources)))) = 2"
  by code_simp

text \<open>
  Claim C7, amended. In a batch export, a source that cannot be decoded gives exactly one
  failure entry, \<open>Open failed:\<close> followed by its path, whatever the requested formats; nothing
  is saved or written for it; the batch goes on with the remaining sources, whose entries
  follow, and ends with the warning box.
\<close>

theorem export_decode_failure_single_entry:
  assumes "fst (load_image S path w) = None"
  shows "fst (export_sources S out_dir cfg (path # paths) ([], w)) =
           (''Open failed: '' @ path) #
           fst (export_sources S out_dir cfg paths ([], snd (load_image S path w))) \<and>
         snd (export_sources S out_dir cfg (path # paths) ([], w)) =
           snd (export_sources S out_dir cfg paths ([], snd (load_image S path w))) \<and>
         saves (snd (load_image S path w)) = saves w \<and>
         files (snd (load_image S path w)) = files w \<and>
         (\<exists>text. fst (export_batch S (path # paths) out_dir cfg w) =
                   Warning ''Export Done (with errors)'' text)"
proof -
  obtain w1 where l: "load_image S path w = (None, w1)"
    using assms by (cases "load_image S path w") simp
  have a: "export_sources S out_dir cfg (path # paths) ([], w) =
      export_sources S out_dir cfg paths ([''Open failed: '' @ path], w1)"
    using l by simp
  have b: "export_sources S out_dir cfg paths ([''Open failed: '' @ path], w1) =
      ((''Open failed: '' @ path) # fst (export_sources S out_dir cfg paths ([], w1)),
       snd (export_sources S out_dir cfg paths ([], w1)))"
    using export_sources_errors[of S out_dir cfg paths "[''Open failed: '' @ path]" w1] by simp
  have c: "saves w1 = saves w \<and> files w1 = files w"
    using l by (auto simp: load_image_def image_open_def split: sum.splits option.splits)
  show ?thesis
    using a b c l by (simp add: export_batch_def)
qed

lemma example_load_fails: "fst (load_image sys_picky ''in/bad.png'' two_sources) = None"
  by code_simp

theorem export_decode_failure_single_entry_witness:
  "fst (load_image sys_picky ''in/bad.png'' two_sources) = None \<and>
   fst (export_sources sys_picky ''out'' cfg_png_jpeg [''in/bad.png'', ''in/good.png'']
          ([], two_sources)) =
     ''Open failed: in/bad.png'' #
     fst (export_sources sys_picky ''out'' cfg_png_jpeg [''in/good.png'']
            ([], snd (load_image sys_picky ''in/bad.png'' two_sources)))"
  using export_decode_failure_single_entry[of sys_picky "''in/bad.png''" two_sources "''out''"
      cfg_png_jpeg "[''in/good.png'']"] example_load_fails
  by simp

section \<open>The in-place converter\<close>

lemma is_png_last:
  assumes "is_png f"
  shows "f \<noteq> []" "lower_char (last f) = CHR ''g''"
proof -
  have len: "length ''.png'' \<le> length f"
    and d: "drop (length f - length ''.png'') (map lower_char f) = ''.png''"
    using assms unfolding is_png_def endswith_def py_lower_def by simp_all
  show ne: "f \<noteq> []" using len by auto
  have "last (drop (length f - length ''.png'') (map lower_char f)) = last (map lower_char f)"
    using len by (intro last_drop) simp
  then have "last (map lower_char f) = CHR ''g''" using d by simp
  then show "lower_char (last f) = CHR ''g''" using ne by (simp add: last_map)
qed

lemma webp_name_differs:
  assumes "is_png f"
  shows "stem @ ''.webp'' \<noteq> f"
proof
  assume "stem @ ''.webp'' = f"
  then have "last f = CHR ''p''" by auto
  then show False using is_png_last(2)[OF assms] by (simp add: lower_char_def)
qed

lemma image_save_frame:
  assumes "image_save S im p fmt kw w = (r, w1)"
  shows "opened w1 = opened w" "q \<noteq> p \<Longrightarrow> files w1 q = files w q"
  using assms
  by (auto simp: image_save_def Let_def split: save_result.splits leftover.splits)

lemma convert_one_frame:
  assumes "convert_one S cfg src dst w = (r, w1)"
  shows "opened w1 = opened w @ [src]" "q \<noteq> dst \<Longrightarrow> files w1 q = files w q"
proof -
  obtain r0 w0 where o: "image_open S src w = (r0, w0)" by (cases "image_open S src w")
  then have w0: "opened w0 = opened w @ [src]" "files w0 = files w"
    by (auto simp: image_open_def)
  have "opened w1 = opened w @ [src] \<and> (q \<noteq> dst \<longrightarrow> files w1 q = files w q)"
  proof (cases r0)
    case (Inl e)
    then show ?thesis using assms o w0 by (simp add: convert_one_def)
  next
    case (Inr im)
    define m where "m = (if no_alpha cfg then ''RGB''
                         else if mode im = ''RGBA'' \<or> mode im = ''LA'' then ''RGBA'' else ''RGB'')"
    define kw where "kw = (if no_alpha cfg then [(''quality'', KInt 90), (''method'', KInt 6)]
                           else [(''lossless'', KBool True), (''method'', KInt 6)])"
    show ?thesis
    proof (cases "convert S im m")
      case (Inl e)
      then show ?thesis using assms o w0 Inr by (auto simp: convert_one_def m_def Let_def split: if_splits)
    next
      case c: (Inr im1)
      then have "image_save S im1 dst ''WEBP'' kw w0 = (r, w1)"
        using assms o Inr by (auto simp: convert_one_def m_def kw_def Let_def split: if_splits)
      then show ?thesis using image_save_frame(1)[of S im1 dst "''WEBP''" kw w0 r w1]
          image_save_frame(2)[of S im1 dst "''WEBP''" kw w0 r w1 q] w0 by simp
    qed
  qed
  then show "opened w1 = opened w @ [src]" "q \<noteq> dst \<Longrightarrow> files w1 q = files w q" by simp_all
qed

lemma move_result:
  assumes "move S src dst w = (r, w1)"
  shows "opened w1 = opened w"
    and "r \<noteq> None \<Longrightarrow> q \<noteq> dst \<Longrightarrow> files w1 q = files w q"
    and "r = None \<Longrightarrow> files w1 dst = files w src \<and> files w src \<noteq> None \<and> move_fault S src dst = None"
    and "r = None \<Longrightarrow> src \<noteq> dst \<Longrightarrow> files w1 src = None"
    and "files w src = Some b \<Longrightarrow> r \<noteq> None \<Longrightarrow> move_fault S src dst \<noteq> None"
  using assms by (auto simp: move_def split: option.splits prod.splits copied.splits)

lemma remove_result:
  assumes "remove S p w = (r, w1)"
  shows "opened w1 = opened w" "q \<noteq> p \<Longrightarrow> files w1 q = files w q"
  using assms by (auto simp: remove_def split: option.splits)

text \<open>
  Claim C1 as stated fails: with \<open>keep_backup\<close> set and a file of the same name already in
  the backup folder, the source is not moved; after a failed encode the original is at its
  original path, and the backup path holds the earlier file, not the original.
\<close>

theorem failed_encode_counterexample:
  "keep_backup job_backup \<and>
   files unencodable_backup (InFolder ''a.png'') = Some [1] \<and>
   fst (process_item sys_picky job_backup 1 1 ''a.png'' (start unencodable_backup)) =
     [Log ''Failed: a.png -> encoder error'', Progress 100] \<and>
   files (st_world (snd (process_item sys_picky job_backup 1 1 ''a.png''
                          (start unencodable_backup))))
     (InBackup ''a.png'') \<noteq> Some [1] \<and>
   files (st_world (snd (process_item sys_picky job_backup 1 1 ''a.png''
                          (start unencodable_backup))))
     (InFolder ''a.png'') = Some [1]"
  by code_simp

text \<open>
  Claim C1, amended. For every source item whose name ends in \<open>.png\<close>: without
  \<open>keep_backup\<close> the original leaves its path only after a successful encode; and after a
  failure the original is still there, at the backup path when \<open>keep_backup\<close> is set and
  the item was moved there (no file of its name was in the backup folder and the move did
  not fail), and otherwise at its original path. Where the item is not moved at all (no
  \<open>keep_backup\<close>, or a file of its name already in the backup folder), the backup path is
  as it was.
\<close>

theorem failure_keeps_original:
  assumes png: "is_png fname"
    and orig: "files (st_world st) (InFolder fname) = Some b"
    and run: "process_item S cfg tot i fname st = (ev, st1)"
  shows "(Log (''Failed: '' @ fname @ '' -> '' @ e) \<in> set ev \<longrightarrow>
            (if keep_backup cfg \<and> files (st_world st) (InBackup fname) = None \<and>
                move_fault S (InFolder fname) (InBackup fname) = None
             then files (st_world st1) (InBackup fname) = Some b
             else files (st_world st1) (InFolder fname) = Some b \<and>
                  (\<not> keep_backup cfg \<or> files (st_world st) (InBackup fname) \<noteq> None \<longrightarrow>
                     files (st_world st1) (InBackup fname) =
                     files (st_world st) (InBackup fname)))) \<and>
         (\<not> keep_backup cfg \<and> files (st_world st1) (InFolder fname) \<noteq> Some b \<longrightarrow>
            Log (''Converted: '' @ fname @ '' '' @ arrow @ '' '' @ splitext_root fname @ ''.webp'')
              \<in> set ev)"
proof -
  define w where "w = st_world st"
  define src where "src = InFolder fname"
  define bak where "bak = InBackup fname"
  define dst_name where "dst_name = splitext_root fname @ ''.webp''"
  define dst where "dst = InFolder dst_name"
  define sfc where "sfc = (if keep_backup cfg then bak else src)"
  have ds: "src \<noteq> dst" using webp_name_differs[OF png, of "splitext_root fname"]
    by (auto simp: src_def dst_def dst_name_def)
  have db: "bak \<noteq> dst" by (simp add: bak_def dst_def)
  have sb: "src \<noteq> bak" by (simp add: bak_def src_def)
  have o: "files w src = Some b" using orig by (simp add: w_def src_def)
  show ?thesis
  proof (cases "\<not> overwrite cfg \<and> path_exists w dst")
    case True
    then have "ev = [Log (''Skip (already exists): '' @ dst_name), Progress (progress_percent i tot)]"
      and "st1 = st"
      using run by (auto simp: process_item_def Let_def w_def dst_def dst_name_def)
    then show ?thesis using orig by simp
  next
    case False
    obtain ev0 w1 c1 where ci: "convert_item S cfg fname w (converted st) = (ev0, w1, c1)"
      by (metis prod.exhaust)
    have ev: "ev = ev0 @ [Progress (progress_percent i tot)]" and st1: "st_world st1 = w1"
      using run False ci by (auto simp: process_item_def Let_def w_def dst_def dst_name_def)
    obtain r0 w0 where mv:
      "(if keep_backup cfg \<and> \<not> path_exists w bak then move S src bak w else (None, w)) = (r0, w0)"
      by (metis prod.exhaust)
    have ci': "(ev0, w1, c1) =
      (case (r0, w0) of
         (Some e, w1) \<Rightarrow> ([Log (''Failed: '' @ fname @ '' -> '' @ e)], w1, converted st)
       | (None, w1) \<Rightarrow>
           (case convert_one S cfg sfc dst w1 of
              (Some e, w2) \<Rightarrow> ([Log (''Failed: '' @ fname @ '' -> '' @ e)], w2, converted st)
            | (None, w2) \<Rightarrow>
                (let ev = [Log (''Converted: '' @ fname @ '' '' @ arrow @ '' '' @ dst_name)]
                 in if \<not> keep_backup cfg \<and> path_exists w2 src then
                      (case remove S src w2 of
                         (Some e_rm, w3) \<Rightarrow>
                           (ev @ [Log (''Warn: failed to delete original '' @ fname @ '': '' @ e_rm)],
                            w3, converted st + 1)
                       | (None, w3) \<Rightarrow> (ev, w3, converted st + 1))
                    else (ev, w2, converted st + 1))))"
      using ci mv unfolding convert_item_def Let_def src_def bak_def dst_def dst_name_def sfc_def
      by simp
    show ?thesis
    proof (cases r0)
      case (Some e0)
      then have kb: "keep_backup cfg" "files w bak = None" and m: "move S src bak w = (Some e0, w0)"
        using mv by (auto simp: path_exists_def split: if_splits)
      have "files w0 src = files w src" using move_result(2)[OF m _ sb] by simp
      moreover have "move_fault S src bak \<noteq> None" using move_result(5)[OF m o] by simp
      moreover have "ev0 = [Log (''Failed: '' @ fname @ '' -> '' @ e0)]" "w1 = w0"
        using ci' Some by simp_all
      ultimately show ?thesis
        using ev st1 o kb by (auto simp: w_def src_def bak_def)
    next
      case None
      have pre: "opened w0 = opened w \<and>
        (if keep_backup cfg \<and> files w bak = None
         then files w0 bak = Some b \<and> move_fault S src bak = None
         else w0 = w)"
      proof (cases "keep_backup cfg \<and> files w bak = None")
        case True
        then have m: "move S src bak w = (None, w0)" using mv None by (simp add: path_exists_def)
        show ?thesis using True move_result(1,3)[OF m] o by simp
      next
        case False
        then show ?thesis using mv by (auto simp: path_exists_def split: if_splits)
      qed
      obtain r2 w2 where co: "convert_one S cfg sfc dst w0 = (r2, w2)" by (metis prod.exhaust)
      have fr: "files w2 src = files w0 src" "files w2 bak = files w0 bak"
        using convert_one_frame(2)[OF co] ds db by simp_all
      show ?thesis
      proof (cases r2)
        case (Some e2)
        then have "ev0 = [Log (''Failed: '' @ fname @ '' -> '' @ e2)]" "w1 = w2"
          using ci' None co by simp_all
        then show ?thesis
          using ev st1 fr pre o by (auto simp: w_def src_def bak_def split: if_splits)
      next
        case n2: None
        have "Log (''Converted: '' @ fname @ '' '' @ arrow @ '' '' @ dst_name) \<in> set ev0 \<and>
              Log (''Failed: '' @ fname @ '' -> '' @ e) \<notin> set ev0"
          using ci' None co n2 by (auto simp: Let_def split: prod.splits option.splits if_splits)
        then show ?thesis using ev by (simp add: dst_name_def)
      qed
    qed
  qed
qed

lemma example_failed_item:
  "is_png ''a.png''"
  "files (st_world (start unencodable_source)) (InFolder ''a.png'') = Some []"
  "files (st_world (start unencodable_source)) (InBackup ''a.png'') = None"
  "move_fault (sys_picky :: path sys) (InFolder ''a.png'') (InBackup ''a.png'') = None"
  "keep_backup job_backup"
  "fst (process_item sys_picky job_backup 1 1 ''a.png'' (start unencodable_source)) =
     [Log ''Failed: a.png -> encoder error'', Progress 100]"
  by code_simp+

theorem failure_keeps_original_witness:
  "is_png ''a.png'' \<and>
   files (st_world (start unencodable_source)) (InFolder ''a.png'') = Some [] \<and>
   Log ''Failed: a.png -> encoder error''
     \<in> set (fst (process_item sys_picky job_backup 1 1 ''a.png'' (start unencodable_source))) \<and>
   files (st_world (snd (process_item sys_picky job_backup 1 1 ''a.png''
                          (start unencodable_source))))
     (InBackup ''a.png'') = Some []"
  using failure_keeps_original[of "''a.png''" "start unencodable_source" "[]" sys_picky job_backup
      1 1 "fst (process_item sys_picky job_backup 1 1 ''a.png'' (start unencodable_source))"
      "snd (process_item sys_picky job_backup 1 1 ''a.png'' (start unencodable_source))"
      "''encoder error''"]
    example_failed_item
  by simp

text \<open>
  A move that raises after the copy: the item fails, the original is still at its path, and
  the backup path holds the copy.
\<close>

lemma example_failed_move:
  "fst (process_item sys_unlink_fails job_backup 1 1 ''a.png'' (start one_source)) =
     [Log ''Failed: a.png -> Permission denied'', Progress 100]"
  "files (st_world (snd (process_item sys_unlink_fails job_backup 1 1 ''a.png'' (start one_source))))
     (InFolder ''a.png'') = Some [1]"
  "files (st_world (snd (process_item sys_unlink_fails job_backup 1 1 ''a.png'' (start one_source))))
     (InBackup ''a.png'') = Some [1]"
  by code_simp+

text \<open>
  Claim C6. With \<open>overwrite\<close> unset, an item whose output file exists gives the skip line
  and a progress update and leaves the state as it was, so that no file is opened; the loop
  goes on with the next item.
\<close>

theorem skip_existing_output:
  assumes "\<not> overwrite cfg"
    and "files (st_world st) (InFolder (splitext_root fname @ ''.webp'')) \<noteq> None"
  shows "process_item S cfg tot i fname st =
           ([Log (''Skip (already exists): '' @ splitext_root fname @ ''.webp''),
             Progress (progress_percent i tot)], st) \<and>
         opened (st_world (snd (process_item S cfg tot i fname st))) = opened (st_world st) \<and>
         (\<not> stopped st \<longrightarrow>
            run_loop S calls cfg tot i (fname # rest) st =
              (case run_loop S calls cfg tot (Suc i) rest (st\<lparr>stopped := calls i\<rparr>) of
                 (ev2, st2) \<Rightarrow>
                   ([Log (''Skip (already exists): '' @ splitext_root fname @ ''.webp''),
                     Progress (progress_percent i tot)] @ ev2, st2)))"
  using assms by (simp add: process_item_def path_exists_def Let_def)

lemma example_skipped_item:
  "\<not> overwrite job_backup"
  "files (st_world (start already_converted)) (InFolder (splitext_root ''a.png'' @ ''.webp'')) \<noteq> None"
  "splitext_root ''a.png'' @ ''.webp'' = ''a.webp''"
  "progress_percent 1 1 = 100"
  by code_simp+

theorem skip_existing_output_witness:
  "\<not> overwrite job_backup \<and>
   process_item sys_picky job_backup 1 1 ''a.png'' (start already_converted) =
     ([Log ''Skip (already exists): a.webp'', Progress 100], start already_converted)"
  using skip_existing_output[of job_backup "start already_converted" "''a.png''" sys_picky 1 1
      "\<lambda>i. False" "[]"]
    example_skipped_item
  by simp

text \<open>
  Claim C9. With \<open>keep_backup\<close> set, for an item that is not skipped and whose name is
  already in the backup folder: the source file stays in the source folder as it was, the
  backup file stays as it was, the one file opened is the backup file, and the conversion
  is the one of the backup file.
\<close>

theorem existing_backup_is_used:
  assumes kb: "keep_backup cfg"
    and png: "is_png fname"
    and old: "files (st_world st) (InBackup fname) = Some old"
    and go: "overwrite cfg \<or> files (st_world st) (InFolder (splitext_root fname @ ''.webp'')) = None"
    and run: "process_item S cfg tot i fname st = (ev, st1)"
  shows "files (st_world st1) (InFolder fname) = files (st_world st) (InFolder fname) \<and>
         files (st_world st1) (InBackup fname) = Some old \<and>
         opened (st_world st1) = opened (st_world st) @ [InBackup fname] \<and>
         (\<exists>r. convert_one S cfg (InBackup fname) (InFolder (splitext_root fname @ ''.webp''))
                 (st_world st) = (r, st_world st1))"
proof -
  define w where "w = st_world st"
  define dst where "dst = InFolder (splitext_root fname @ ''.webp'')"
  have ds: "InFolder fname \<noteq> dst" using webp_name_differs[OF png, of "splitext_root fname"]
    by (auto simp: dst_def)
  have db: "InBackup fname \<noteq> dst" by (simp add: dst_def)
  obtain r w2 where co: "convert_one S cfg (InBackup fname) dst w = (r, w2)" by (metis prod.exhaust)
  have noskip: "\<not> (\<not> overwrite cfg \<and> path_exists w dst)"
    using go by (auto simp: path_exists_def w_def dst_def)
  have ex: "path_exists w (InBackup fname)" using old by (simp add: path_exists_def w_def)
  have "st_world st1 = w2"
    using run noskip ex kb co
    by (auto simp: process_item_def convert_item_def Let_def w_def[symmetric] dst_def[symmetric]
        split: prod.splits option.splits)
  then show ?thesis
    using convert_one_frame(1)[OF co] convert_one_frame(2)[OF co ds]
      convert_one_frame(2)[OF co db] co old
    by (auto simp: w_def dst_def)
qed

lemma example_old_backup:
  "keep_backup job_backup"
  "is_png ''a.png''"
  "files (st_world (start old_backup)) (InBackup ''a.png'') = Some [2]"
  "files (st_world (start old_backup)) (InFolder ''a.png'') = Some [1]"
  "files (st_world (start old_backup)) (InFolder (splitext_root ''a.png'' @ ''.webp'')) = None"
  "opened (st_world (start old_backup)) = []"
  "files (st_world (snd (process_item sys_picky job_backup 1 1 ''a.png'' (start old_backup))))
     (InFolder ''a.webp'') = Some [2]"
  by code_simp+

theorem existing_backup_is_used_witness:
  "files (st_world (snd (process_item sys_picky job_backup 1 1 ''a.png'' (start old_backup))))
     (InFolder ''a.png'') = Some [1] \<and>
   files (st_world (snd (process_item sys_picky job_backup 1 1 ''a.png'' (start old_backup))))
     (InBackup ''a.png'') = Some [2] \<and>
   opened (st_world (snd (process_item sys_picky job_backup 1 1 ''a.png'' (start old_backup)))) =
     [InBackup ''a.png''] \<and>
   files (st_world (snd (process_item sys_picky job_backup 1 1 ''a.png'' (start old_backup))))
     (InFolder ''a.webp'') = Some [2]"
  using existing_backup_is_used[of job_backup "''a.png''" "start old_backup" "[2]" sys_picky 1 1
      "fst (process_item sys_picky job_backup 1 1 ''a.png'' (start old_backup))"
      "snd (process_item sys_picky job_backup 1 1 ''a.png'' (start old_backup))"]
    example_old_backup
  by simp





end
